theory Spec2Isabelle
  imports Main
begin

section \<open>Exceptions\<close>

text \<open>
  The exceptions the program raises or can receive. \<open>ValueError\<close> carries which of the
  three messages of \<^verbatim>\<open>load_json_frames\<close> it was raised with. \<open>OtherException n\<close> stands
  for any other instance of \<^verbatim>\<open>Exception\<close> (raised by the JSON decoder, the operating
  system, the console or the transport), \<open>OtherBaseException n\<close> for any other exception
  that is not an \<^verbatim>\<open>Exception\<close> (\<^verbatim>\<open>KeyboardInterrupt\<close>, \<^verbatim>\<open>SystemExit\<close>).
\<close>

datatype err_msg = PathNotAbsolute "nat list" | NotNonEmptyList | FrameNotString nat

datatype pyexc =
    ZeroDivisionError
  | ValueError err_msg
  | FileNotFoundError "nat list"
  | UnicodeEncodeError
  | IndexError
  | OtherException nat
  | CancelledError
  | GeneratorExit
  | OtherBaseException nat

text \<open>
  \<^verbatim>\<open>isinstance(e, Exception)\<close>: \<^verbatim>\<open>asyncio.CancelledError\<close> and \<^verbatim>\<open>GeneratorExit\<close>
  derive from \<^verbatim>\<open>BaseException\<close> only.
\<close>

fun is_Exception :: "pyexc \<Rightarrow> bool" where
  "is_Exception CancelledError = False"
| "is_Exception GeneratorExit = False"
| "is_Exception (OtherBaseException n) = False"
| "is_Exception e = True"

text \<open>
  \<^verbatim>\<open>a % b\<close> on integers raises \<^verbatim>\<open>ZeroDivisionError\<close> when \<open>b\<close> is 0; otherwise it is
  the floored remainder, which has the sign of \<open>b\<close>, as \<open>mod\<close> on \<open>int\<close> has.
\<close>

definition py_mod :: "int \<Rightarrow> int \<Rightarrow> pyexc + int" where
  "py_mod a b = (if b = 0 then Inl ZeroDivisionError else Inr (a mod b))"

section \<open>Python text\<close>

text \<open>
  A Python \<^verbatim>\<open>str\<close> is a sequence of Unicode code points, and \<^verbatim>\<open>len\<close> counts code
  points. A character is therefore modelled by its code point (a natural number) and a
  string by the list of its code points. \<open>str\<close> reads an ASCII literal.
\<close>

type_synonym pychar = nat
type_synonym pystr = "pychar list"

definition str :: "string \<Rightarrow> pystr" where
  "str s = map of_char s"

text \<open>
  Slicing with one bound, \<^verbatim>\<open>s[i:]\<close> and \<^verbatim>\<open>s[:i]\<close>: a negative bound counts from the
  end, and every bound is clamped to the string, so slicing never raises.
\<close>

definition slice_from :: "'a list \<Rightarrow> int \<Rightarrow> 'a list" where
  "slice_from s i = (if i < 0 then drop (nat (int (length s) + i)) s else drop (nat i) s)"

definition slice_to :: "'a list \<Rightarrow> int \<Rightarrow> 'a list" where
  "slice_to s i = (if i < 0 then take (nat (int (length s) + i)) s else take (nat i) s)"

text \<open>
  The characters \<^verbatim>\<open>str.isspace\<close> accepts, which are the ones \<^verbatim>\<open>split()\<close>,
  \<^verbatim>\<open>strip()\<close> and \<^verbatim>\<open>rstrip()\<close> without arguments treat as whitespace.
\<close>

definition isspace :: "pychar \<Rightarrow> bool" where
  "isspace c \<longleftrightarrow>
     (9 \<le> c \<and> c \<le> 13) \<or> (28 \<le> c \<and> c \<le> 32) \<or> c = 133 \<or> c = 160 \<or> c = 5760 \<or>
     (8192 \<le> c \<and> c \<le> 8202) \<or> c = 8232 \<or> c = 8233 \<or> c = 8239 \<or> c = 8287 \<or> c = 12288"

definition str_rstrip :: "pystr \<Rightarrow> pystr" where
  "str_rstrip s = rev (dropWhile isspace (rev s))"

definition str_strip :: "pystr \<Rightarrow> pystr" where
  "str_strip s = dropWhile isspace (str_rstrip s)"

text \<open>
  \<^verbatim>\<open>s.ljust(width)\<close> pads with spaces on the right up to \<open>width\<close> characters and
  returns a string that is already that long (or longer) as it is.
\<close>

definition str_ljust :: "pystr \<Rightarrow> int \<Rightarrow> pystr" where
  "str_ljust s width =
     (if width \<le> int (length s) then s else s @ replicate (nat width - length s) 32)"

text \<open>
  \<^verbatim>\<open>s.split()\<close>: the maximal runs of non-whitespace characters, in order. The scan
  keeps the word read so far in \<open>cur\<close>.
\<close>

fun split_scan :: "pystr \<Rightarrow> pystr \<Rightarrow> pystr list" where
  "split_scan cur [] = (if cur = [] then [] else [cur])"
| "split_scan cur (c # cs) =
     (if isspace c then (if cur = [] then split_scan [] cs else cur # split_scan [] cs)
      else split_scan (cur @ [c]) cs)"

definition str_split :: "pystr \<Rightarrow> pystr list" where
  "str_split s = split_scan [] s"

fun str_join :: "pystr \<Rightarrow> pystr list \<Rightarrow> pystr" where
  "str_join sep [] = []"
| "str_join sep [w] = w"
| "str_join sep (w # ws) = w @ sep @ str_join sep ws"

section \<open>The banner track (app.py, lines 81 to 114)\<close>

definition PADDING :: int where
  "PADDING = 10"

text \<open>
  \<^verbatim>\<open>_normalize_banner_lines(lines, pad)\<close>: the non-blank lines without their trailing
  whitespace, each padded to the longest length plus \<open>pad\<close>; \<^verbatim>\<open>max(..., default=0)\<close>
  is 0 when no line is left.
\<close>

definition max_len :: "pystr list \<Rightarrow> nat" where
  "max_len raw = fold max (map length raw) 0"

definition normalize_banner_lines :: "pystr list \<Rightarrow> int \<Rightarrow> pystr list \<times> int" where
  "normalize_banner_lines lines pad =
     (let raw = map str_rstrip (filter (\<lambda>ln. str_strip ln \<noteq> []) lines);
          width = int (max_len raw) + pad;
          fixed = map (\<lambda>ln. str_ljust ln width) raw
      in (fixed, width))"

text \<open>
  \<^verbatim>\<open>make_ticker_lines(text, pad)\<close>: the caption with its whitespace normalised, as one
  line padded by \<open>pad\<close> spaces.
\<close>

definition make_ticker_lines :: "pystr \<Rightarrow> int \<Rightarrow> pystr list \<times> int" where
  "make_ticker_lines caption pad =
     (let joined = str_join (str '' '') (str_split caption);
          base = (if joined \<noteq> [] then joined else []);
          width = int (length base) + pad
      in ([str_ljust base width], width))"

text \<open>
  \<^verbatim>\<open>shift_lines(lines, offset, total_width)\<close>: one offset, reduced modulo
  \<^verbatim>\<open>max(1, total_width)\<close>, rotates every line. The generator is read as the list of
  the lines it yields (the stream takes \<^verbatim>\<open>list(shift_lines(...))\<close>).
\<close>

definition shift_lines :: "'a list list \<Rightarrow> int \<Rightarrow> int \<Rightarrow> pyexc + 'a list list" where
  "shift_lines lines offset total_width =
     (case py_mod offset (max 1 total_width) of
        Inl e \<Rightarrow> Inl e
      | Inr off \<Rightarrow> Inr (map (\<lambda>line. slice_from line off @ slice_to line off) lines))"

text \<open>
  The view of a template (its lines and its width) at a tick is the call the stream makes:
  \<^verbatim>\<open>shift_lines(banner_template, banner_offset, banner_width)\<close>.
\<close>

definition view :: "'a list list \<times> int \<Rightarrow> int \<Rightarrow> pyexc + 'a list list" where
  "view tmpl tick = shift_lines (fst tmpl) tick (snd tmpl)"

section \<open>The frame compositor (app.py, lines 116 to 148)\<close>

text \<open>
  \<^verbatim>\<open>s.splitlines()\<close>: the lines of \<open>s\<close>, cut at every line boundary (\<^verbatim>\<open>\n\<close>, \<^verbatim>\<open>\r\<close>,
  \<^verbatim>\<open>\r\n\<close> as one, \<^verbatim>\<open>\v\<close>, \<^verbatim>\<open>\f\<close>, the separators 28 to 30, NEL 133 and the
  Unicode line and paragraph separators), without the boundaries and with no empty last
  line.
\<close>

definition islinebreak :: "pychar \<Rightarrow> bool" where
  "islinebreak c \<longleftrightarrow>
     (10 \<le> c \<and> c \<le> 13) \<or> (28 \<le> c \<and> c \<le> 30) \<or> c = 133 \<or> c = 8232 \<or> c = 8233"

fun splitlines_scan :: "pystr \<Rightarrow> pystr \<Rightarrow> pystr list" where
  "splitlines_scan cur [] = (if cur = [] then [] else [cur])"
| "splitlines_scan cur [c] =
     (if islinebreak c then [cur] else [cur @ [c]])"
| "splitlines_scan cur (c # d # cs) =
     (if c = 13 \<and> d = 10 then cur # splitlines_scan [] cs
      else if islinebreak c then cur # splitlines_scan [] (d # cs)
      else splitlines_scan (cur @ [c]) (d # cs))"

definition str_splitlines :: "pystr \<Rightarrow> pystr list" where
  "str_splitlines s = splitlines_scan [] s"

text \<open>The two erase sequences the compositor writes, and the newline.\<close>

definition ESC_K :: pystr where
  "ESC_K = 27 # str ''[K''"

definition ESC_J :: pystr where
  "ESC_J = 27 # str ''[J''"

definition NEWLINE :: pystr where
  "NEWLINE = [10]"

text \<open>
  The console is the Rich library's, which is not part of the repository: it is a
  parameter. \<open>console line\<close> is the text \<^verbatim>\<open>CONSOLE.print(line, end="")\<close> writes into the
  buffer for the markup \<open>line\<close>, or the exception it raises (Rich rejects malformed
  markup).
\<close>

type_synonym console = "pystr \<Rightarrow> pyexc + pystr"

text \<open>
  \<^verbatim>\<open>print_line_and_clear(line)\<close> appends to the buffer what the console prints, then
  \<^verbatim>\<open>ESC[K\<close>, then a newline.
\<close>

definition print_line_and_clear :: "console \<Rightarrow> pystr \<Rightarrow> pystr \<Rightarrow> pyexc + pystr" where
  "print_line_and_clear console buf line =
     (case console line of
        Inl e \<Rightarrow> Inl e
      | Inr printed \<Rightarrow> Inr (buf @ printed @ ESC_K @ NEWLINE))"

text \<open>A \<^verbatim>\<open>for\<close> loop that prints each line in turn; the first exception ends it.\<close>

fun print_lines :: "console \<Rightarrow> pystr \<Rightarrow> pystr list \<Rightarrow> pyexc + pystr" where
  "print_lines console buf [] = Inr buf"
| "print_lines console buf (line # rest) =
     (case print_line_and_clear console buf line of
        Inl e \<Rightarrow> Inl e
      | Inr buf' \<Rightarrow> print_lines console buf' rest)"

text \<open>The markup of a banner line: \<^verbatim>\<open>f"[rgb({banner_color})]{ln}[/]"\<close>.\<close>

definition banner_markup :: "pystr \<Rightarrow> pystr \<Rightarrow> pystr" where
  "banner_markup banner_color ln = str ''[rgb('' @ banner_color @ str '')]'' @ ln @ str ''[/]''"

definition render_frame_with_banner ::
  "console \<Rightarrow> pystr \<Rightarrow> pystr list \<Rightarrow> pystr \<Rightarrow> pyexc + pystr" where
  "render_frame_with_banner console frame_rich_text banner_lines banner_color =
     (case print_lines console [] (str_splitlines frame_rich_text) of
        Inl e \<Rightarrow> Inl e
      | Inr buf1 \<Rightarrow>
          (case print_line_and_clear console buf1 [] of
             Inl e \<Rightarrow> Inl e
           | Inr buf2 \<Rightarrow>
               (case print_lines console buf2 (map (banner_markup banner_color) banner_lines) of
                  Inl e \<Rightarrow> Inl e
                | Inr buf3 \<Rightarrow> Inr (buf3 @ ESC_J))))"

text \<open>
  The number of places at which the sequence \<open>p\<close> occurs in a text. Occurrences of
  \<^verbatim>\<open>ESC[K\<close> or of \<^verbatim>\<open>ESC[J\<close> cannot overlap, so for them this is \<^verbatim>\<open>text.count(p)\<close>.
\<close>

fun count_seq :: "'a list \<Rightarrow> 'a list \<Rightarrow> nat" where
  "count_seq p [] = 0"
| "count_seq p (x # xs) = (if take (length p) (x # xs) = p then 1 else 0) + count_seq p xs"

section \<open>The frame store (app.py, lines 151 to 164)\<close>

text \<open>A decoded JSON document, as \<^verbatim>\<open>json.load\<close> returns it.\<close>

datatype json =
    JNull
  | JBool bool
  | JInt int
  | JFloat int int
  | JString pystr
  | JArray "json list"
  | JObject "(pystr \<times> json) list"

text \<open>
  What the function asks of the operating system and of the JSON decoder: whether a path
  is absolute (\<^verbatim>\<open>os.path.isabs\<close>), whether it exists (\<^verbatim>\<open>os.path.exists\<close>), and what
  opening and decoding the file gives, a document or the exception that \<^verbatim>\<open>open\<close> or
  \<^verbatim>\<open>json.load\<close> raises.
\<close>

record os_env =
  isabs :: "pystr \<Rightarrow> bool"
  path_exists :: "pystr \<Rightarrow> bool"
  json_load :: "pystr \<Rightarrow> pyexc + json"

text \<open>
  The loop over \<^verbatim>\<open>enumerate(data)\<close>: the first element that is not a string raises with
  its index; otherwise the frames are the strings.
\<close>

fun check_frames :: "nat \<Rightarrow> json list \<Rightarrow> pyexc + pystr list" where
  "check_frames i [] = Inr []"
| "check_frames i (JString s # rest) =
     (case check_frames (Suc i) rest of Inl e \<Rightarrow> Inl e | Inr frames \<Rightarrow> Inr (s # frames))"
| "check_frames i (fr # rest) = Inl (ValueError (FrameNotString i))"

text \<open>The body of \<^verbatim>\<open>load_json_frames\<close>, which runs on a cache miss.\<close>

definition load_json_frames_body :: "os_env \<Rightarrow> pystr \<Rightarrow> pyexc + pystr list" where
  "load_json_frames_body env json_path =
     (if \<not> isabs env json_path then Inl (ValueError (PathNotAbsolute json_path))
      else if \<not> path_exists env json_path then Inl (FileNotFoundError json_path)
      else (case json_load env json_path of
              Inl e \<Rightarrow> Inl e
            | Inr (JArray frames) \<Rightarrow>
                (if frames = [] then Inl (ValueError NotNonEmptyList)
                 else check_frames 0 frames)
            | Inr _ \<Rightarrow> Inl (ValueError NotNonEmptyList)))"

text \<open>
  The decorator \<^verbatim>\<open>functools.lru_cache(maxsize=32)\<close>, from the standard library's
  behaviour: the cache keeps its entries from the most to the least recently used and
  counts hits and misses (\<^verbatim>\<open>cache_info()\<close>). A call whose argument is cached moves the
  entry to the front and returns its result without running the function. Any other call
  counts a miss and runs the function: an exception passes through and nothing is stored;
  a result is stored at the front, in place of the least recently used entry when the
  cache already holds \<open>maxsize\<close> entries.
\<close>

record lru_cache =
  entries :: "(pystr \<times> pystr list) list"
  hits :: nat
  misses :: nat

definition maxsize :: nat where
  "maxsize = 32"

definition empty_cache :: lru_cache where
  "empty_cache = \<lparr>entries = [], hits = 0, misses = 0\<rparr>"

definition lru_call ::
  "(pystr \<Rightarrow> pyexc + pystr list) \<Rightarrow> pystr \<Rightarrow> lru_cache \<Rightarrow> (pyexc + pystr list) \<times> lru_cache" where
  "lru_call f k c =
     (case map_of (entries c) k of
        Some v \<Rightarrow>
          (Inr v, c\<lparr>entries := (k, v) # filter (\<lambda>kv. fst kv \<noteq> k) (entries c),
                     hits := hits c + 1\<rparr>)
      | None \<Rightarrow>
          (case f k of
             Inl e \<Rightarrow> (Inl e, c\<lparr>misses := misses c + 1\<rparr>)
           | Inr v \<Rightarrow>
               (Inr v, c\<lparr>entries := (k, v) #
                             (if maxsize \<le> length (entries c) then butlast (entries c)
                              else entries c),
                          misses := misses c + 1\<rparr>)))"

definition load_json_frames ::
  "os_env \<Rightarrow> pystr \<Rightarrow> lru_cache \<Rightarrow> (pyexc + pystr list) \<times> lru_cache" where
  "load_json_frames env json_path c = lru_call (load_json_frames_body env) json_path c"

section \<open>The animation stream (app.py, lines 66 to 95 and 167 to 211)\<close>

text \<open>
  The raw art of the big banner, \<^verbatim>\<open>BANNER_BIG_RAW\<close>: the lines of the raw string literal,
  the first of which is empty. A backslash is written as its code point 92.
\<close>

definition BANNER_BIG_RAW :: "pystr list" where
  "BANNER_BIG_RAW =
     [str '''',
      str ''                         /$$ /$$             /$$                                                                                  '',
      str ''                        | $$| $$            | $$                                                                                  '',
      str '' /$$$$$$/$$$$   /$$$$$$ | $$| $$  /$$$$$$$ /$$$$$$    /$$$$$$   /$$$$$$  /$$   /$$      /$$$$$$   /$$$$$$  /$$$$$$/$$$$   /$$$$$$ '',
      str ''| $$_  $$_  $$ /$$__  $$| $$| $$ /$$_____/|_  $$_/   /$$__  $$ /$$__  $$| $$  | $$     /$$__  $$ |____  $$| $$_  $$_  $$ /$$__  $$'',
      str ''| $$ '' @ 92 # str '' $$ '' @ 92 # str '' $$| $$$$$$$$| $$| $$|  $$$$$$   | $$    | $$  '' @ 92 # str ''__/| $$  '' @ 92 # str '' $$| $$  | $$    | $$  '' @ 92 # str '' $$  /$$$$$$$| $$ '' @ 92 # str '' $$ '' @ 92 # str '' $$| $$$$$$$$'',
      str ''| $$ | $$ | $$| $$_____/| $$| $$ '' @ 92 # str ''____  $$  | $$ /$$| $$      | $$  | $$| $$  | $$    | $$  | $$ /$$__  $$| $$ | $$ | $$| $$_____/'',
      str ''| $$ | $$ | $$|  $$$$$$$| $$| $$ /$$$$$$$/  |  $$$$/| $$      |  $$$$$$/|  $$$$$$$ /$$|  $$$$$$$|  $$$$$$$| $$ | $$ | $$|  $$$$$$$'',
      str ''|__/ |__/ |__/ '' @ 92 # str ''_______/|__/|__/|_______/    '' @ 92 # str ''___/  |__/       '' @ 92 # str ''______/  '' @ 92 # str ''____  $$|__/ '' @ 92 # str ''____  $$ '' @ 92 # str ''_______/|__/ |__/ |__/ '' @ 92 # str ''_______/'',
      str ''                                                                         /$$  | $$     /$$  '' @ 92 # str '' $$                                  '',
      str ''                                                                        |  $$$$$$/    |  $$$$$$/                                  '',
      str ''                                                                         '' @ 92 # str ''______/      '' @ 92 # str ''______/                                   '']"

definition BANNER_BIG :: "pystr list" where
  "BANNER_BIG = fst (normalize_banner_lines BANNER_BIG_RAW PADDING)"

definition BANNER_BIG_WIDTH :: int where
  "BANNER_BIG_WIDTH = snd (normalize_banner_lines BANNER_BIG_RAW PADDING)"

text \<open>
  \<^verbatim>\<open>s.encode("utf-8")\<close>: one to four bytes for each code point; a surrogate (and a number
  that is no code point) cannot be encoded.
\<close>

type_synonym bytes = "nat list"

definition utf8_char :: "pychar \<Rightarrow> pyexc + bytes" where
  "utf8_char c =
     (if c < 128 then Inr [c]
      else if c < 2048 then Inr [192 + c div 64, 128 + c mod 64]
      else if 55296 \<le> c \<and> c \<le> 57343 then Inl UnicodeEncodeError
      else if c < 65536 then Inr [224 + c div 4096, 128 + c div 64 mod 64, 128 + c mod 64]
      else if c < 1114112 then
        Inr [240 + c div 262144, 128 + c div 4096 mod 64, 128 + c div 64 mod 64, 128 + c mod 64]
      else Inl UnicodeEncodeError)"

fun encode_utf8 :: "pystr \<Rightarrow> pyexc + bytes" where
  "encode_utf8 [] = Inr []"
| "encode_utf8 (c # cs) =
     (case utf8_char c of
        Inl e \<Rightarrow> Inl e
      | Inr b \<Rightarrow> (case encode_utf8 cs of Inl e \<Rightarrow> Inl e | Inr rest \<Rightarrow> Inr (b @ rest)))"

text \<open>The control sequences of lines 179 to 184 and 203.\<close>

definition ENTER_ALT :: pystr where
  "ENTER_ALT = 27 # str ''[?1049h''"

definition EXIT_ALT :: pystr where
  "EXIT_ALT = 27 # str ''[?1049l''"

definition CLEAR_SCREEN :: pystr where
  "CLEAR_SCREEN = 27 # str ''[2J''"

definition HOME :: pystr where
  "HOME = 27 # str ''[H''"

definition HIDE_CURSOR :: pystr where
  "HIDE_CURSOR = 27 # str ''[?25l''"

definition SHOW_CURSOR :: pystr where
  "SHOW_CURSOR = 27 # str ''[?25h''"

definition start_seq :: "bool \<Rightarrow> pystr" where
  "start_seq alt =
     (if alt then ENTER_ALT @ CLEAR_SCREEN @ HOME @ HIDE_CURSOR
      else CLEAR_SCREEN @ HOME @ HIDE_CURSOR)"

definition end_seq :: "bool \<Rightarrow> pystr" where
  "end_seq alt = (if alt then SHOW_CURSOR @ EXIT_ALT else SHOW_CURSOR)"

text \<open>
  The keyword arguments of \<^verbatim>\<open>stream_json_with_banner\<close>. The delay is left out: it is
  only handed to \<^verbatim>\<open>asyncio.sleep\<close>, and how long a sleep lasts is not modelled.
\<close>

record stream_args =
  json_path :: pystr
  banner_kind :: pystr
  banner_text :: pystr
  banner_color :: pystr
  alt_screen :: bool

text \<open>
  The local variables the generator keeps after lines 176 to 191: \<^verbatim>\<open>frames\<close>,
  \<^verbatim>\<open>start\<close>, \<^verbatim>\<open>end\<close>, \<^verbatim>\<open>banner_template\<close>, \<^verbatim>\<open>banner_width\<close> and the colour.
\<close>

record gen_locals =
  g_frames :: "pystr list"
  g_start :: pystr
  g_end :: pystr
  g_banner_template :: "pystr list"
  g_banner_width :: int
  g_banner_color :: pystr

definition session_setup :: "os_env \<Rightarrow> stream_args \<Rightarrow> lru_cache \<Rightarrow> (pyexc + gen_locals) \<times> lru_cache" where
  "session_setup env a c =
     (case load_json_frames env (json_path a) c of
        (Inl e, c') \<Rightarrow> (Inl e, c')
      | (Inr loaded, c') \<Rightarrow>
          (let tmpl = (if banner_kind a = str ''big'' then (BANNER_BIG, BANNER_BIG_WIDTH)
                       else make_ticker_lines (banner_text a) PADDING)
           in (Inr \<lparr>g_frames = loaded,
                    g_start = start_seq (alt_screen a),
                    g_end = end_seq (alt_screen a),
                    g_banner_template = fst tmpl,
                    g_banner_width = snd tmpl,
                    g_banner_color = banner_color a\<rparr>, c')))"

text \<open>
  An asynchronous generator runs from one suspension point to the next. Its state is the
  point it is suspended at, with the local variables live there: before the first
  \<^verbatim>\<open>__anext__\<close> (\<open>Created\<close>), at \<^verbatim>\<open>yield start\<close> (line 194), at the \<^verbatim>\<open>yield\<close> of a frame
  (line 203, with \<open>i\<close> and the \<open>banner_offset\<close> already incremented), in
  \<^verbatim>\<open>await asyncio.sleep(delay)\<close> (line 204), at \<^verbatim>\<open>yield end\<close> inside \<^verbatim>\<open>finally\<close> (line 209,
  with the exception that \<^verbatim>\<open>finally\<close> re-raises afterwards, if any), or finished, by
  \<^verbatim>\<open>StopAsyncIteration\<close> (\<open>None\<close>) or by an exception. With no frames,
  \<^verbatim>\<open>while True\<close> around an empty \<^verbatim>\<open>for\<close> never reaches a suspension point: \<open>Spinning\<close>.
  At a suspension point the generator is resumed (\<open>Resume\<close>), or an exception is raised
  in it (\<open>Throw\<close>: a cancellation raises \<^verbatim>\<open>CancelledError\<close> in the sleep, \<^verbatim>\<open>athrow\<close> raises
  at a \<^verbatim>\<open>yield\<close>), or it is closed (\<open>Close\<close>: \<^verbatim>\<open>aclose\<close>, also what the event loop does
  with a generator that is dropped unfinished). Closing raises \<^verbatim>\<open>GeneratorExit\<close> at the
  \<^verbatim>\<open>yield\<close>; a generator that answers by yielding has ignored the exit: the interpreter
  discards the value it yields and raises \<^verbatim>\<open>RuntimeError\<close> in the caller of \<^verbatim>\<open>aclose\<close>, so
  no consumer receives that value. A generator that is running (in the sleep) cannot be
  closed: \<^verbatim>\<open>aclose\<close> raises in its caller and the generator is not touched.
\<close>

datatype signal = Resume | Throw pyexc | Close

datatype gen_state =
    Created stream_args
  | AtYieldStart gen_locals
  | AtYieldFrame gen_locals nat int
  | AtSleep gen_locals nat int
  | AtYieldEnd "pyexc option"
  | Spinning
  | Finished "pyexc option"

text \<open>
  Lines 207 to 211: \<^verbatim>\<open>finally\<close> yields the teardown sequence; an \<^verbatim>\<open>Exception\<close> raised
  there is swallowed. \<open>pending\<close> is the exception that left the \<^verbatim>\<open>try\<close> block.
\<close>

definition enter_finally :: "gen_locals \<Rightarrow> pyexc option \<Rightarrow> bytes option \<times> gen_state" where
  "enter_finally g pending =
     (case encode_utf8 (g_end g) of
        Inl e \<Rightarrow> (None, Finished (if is_Exception e then pending else Some e))
      | Inr b \<Rightarrow> (Some b, AtYieldEnd pending))"

text \<open>
  Lines 205 and 206: an exception raised inside the \<^verbatim>\<open>try\<close> block is dropped when it is
  a \<^verbatim>\<open>CancelledError\<close> and is pending otherwise; then \<^verbatim>\<open>finally\<close> runs.
\<close>

definition raise_in_try :: "gen_locals \<Rightarrow> pyexc \<Rightarrow> bytes option \<times> gen_state" where
  "raise_in_try g e = enter_finally g (if e = CancelledError then None else Some e)"

text \<open>Lines 199 to 203: the chunk of one cycle, for frame \<open>i\<close> and scroll tick \<open>off\<close>.\<close>

definition frame_chunk :: "console \<Rightarrow> gen_locals \<Rightarrow> nat \<Rightarrow> int \<Rightarrow> pyexc + bytes" where
  "frame_chunk console g i off =
     (case shift_lines (g_banner_template g) off (g_banner_width g) of
        Inl e \<Rightarrow> Inl e
      | Inr shifted \<Rightarrow>
          (if i < length (g_frames g) then
             (case render_frame_with_banner console (g_frames g ! i) shifted (g_banner_color g) of
                Inl e \<Rightarrow> Inl e
              | Inr content \<Rightarrow> encode_utf8 (HOME @ content))
           else Inl IndexError))"

definition next_frame :: "console \<Rightarrow> gen_locals \<Rightarrow> nat \<Rightarrow> int \<Rightarrow> bytes option \<times> gen_state" where
  "next_frame console g i off =
     (case frame_chunk console g i off of
        Inl e \<Rightarrow> raise_in_try g e
      | Inr b \<Rightarrow> (Some b, AtYieldFrame g i (off + 1)))"

text \<open>Lines 195 to 198: the loop starts, with \<^verbatim>\<open>banner_offset = 0\<close>.\<close>

definition start_loop :: "console \<Rightarrow> gen_locals \<Rightarrow> bytes option \<times> gen_state" where
  "start_loop console g =
     (if length (g_frames g) = 0 then (None, Spinning) else next_frame console g 0 0)"

text \<open>
  Closing at a \<^verbatim>\<open>yield\<close> inside \<^verbatim>\<open>try\<close>: \<^verbatim>\<open>GeneratorExit\<close> is raised there, which is not a
  \<^verbatim>\<open>CancelledError\<close>, so \<^verbatim>\<open>finally\<close> runs with it pending and yields the teardown; the
  value is discarded (nothing is received) and the generator stays where it yielded.
\<close>

definition close_in_try :: "gen_locals \<Rightarrow> bytes option \<times> gen_state" where
  "close_in_try g = (None, snd (raise_in_try g GeneratorExit))"

fun in_session :: "console \<Rightarrow> gen_state \<Rightarrow> signal \<Rightarrow> bytes option \<times> gen_state" where
  "in_session console (AtYieldStart g) Resume = start_loop console g"
| "in_session console (AtYieldStart g) (Throw e) = raise_in_try g e"
| "in_session console (AtYieldStart g) Close = close_in_try g"
| "in_session console (AtYieldFrame g i off) Resume = (None, AtSleep g i off)"
| "in_session console (AtYieldFrame g i off) (Throw e) = raise_in_try g e"
| "in_session console (AtYieldFrame g i off) Close = close_in_try g"
| "in_session console (AtSleep g i off) Resume =
     (if Suc i < length (g_frames g) then next_frame console g (Suc i) off
      else next_frame console g 0 off)"
| "in_session console (AtSleep g i off) (Throw e) = raise_in_try g e"
| "in_session console (AtSleep g i off) Close = (None, AtSleep g i off)"
| "in_session console (AtYieldEnd pending) Resume = (None, Finished pending)"
| "in_session console (AtYieldEnd pending) (Throw e) =
     (None, Finished (if is_Exception e then pending else Some e))"
| "in_session console (AtYieldEnd pending) Close = (None, Finished (Some GeneratorExit))"
| "in_session console Spinning sig = (None, Spinning)"
| "in_session console (Finished r) sig = (None, Finished r)"
| "in_session console (Created a) sig = (None, Created a)"

text \<open>
  One step of the generator, with the process-wide cache: the first \<^verbatim>\<open>__anext__\<close> runs
  lines 176 to 194 (an exception of the load ends the generator before \<^verbatim>\<open>try\<close> is
  entered; an exception thrown into a generator that has not started, or closing it,
  ends it at once).
\<close>

definition gen_step ::
  "os_env \<Rightarrow> console \<Rightarrow> lru_cache \<times> gen_state \<Rightarrow> signal \<Rightarrow> bytes option \<times> (lru_cache \<times> gen_state)" where
  "gen_step env console s sig =
     (case snd s of
        Created a \<Rightarrow>
          (case sig of
             Throw e \<Rightarrow> (None, (fst s, Finished (Some e)))
           | Close \<Rightarrow> (None, (fst s, Finished (Some GeneratorExit)))
           | Resume \<Rightarrow>
               (case session_setup env a (fst s) of
                  (Inl e, c') \<Rightarrow> (None, (c', Finished (Some e)))
                | (Inr g, c') \<Rightarrow>
                    (case encode_utf8 (g_start g) of
                       Inl e \<Rightarrow> (fst (raise_in_try g e), (c', snd (raise_in_try g e)))
                     | Inr b \<Rightarrow> (Some b, (c', AtYieldStart g)))))
      | st \<Rightarrow> (fst (in_session console st sig), (fst s, snd (in_session console st sig))))"

text \<open>The chunks a consumer receives over a sequence of signals, and the state reached.\<close>

fun run ::
  "os_env \<Rightarrow> console \<Rightarrow> lru_cache \<times> gen_state \<Rightarrow> signal list \<Rightarrow> bytes list \<times> (lru_cache \<times> gen_state)" where
  "run env console s [] = ([], s)"
| "run env console s (sig # sigs) =
     (case gen_step env console s sig of
        (out, s') \<Rightarrow>
          (case run env console s' sigs of
             (outs, s'') \<Rightarrow> ((case out of None \<Rightarrow> outs | Some b \<Rightarrow> b # outs), s'')))"



section \<open>Facts about the text operations\<close>

lemma py_mod_max: "py_mod t (max 1 W) = Inr (t mod max 1 W)"
  by (simp add: py_mod_def)

lemma slice_nonneg:
  "0 \<le> i \<Longrightarrow> slice_from s i = drop (nat i) s \<and> slice_to s i = take (nat i) s"
  by (simp add: slice_from_def slice_to_def)

lemma shift_lines_eq:
  "shift_lines lines t W =
     Inr (map (\<lambda>line. drop (nat (t mod max 1 W)) line @ take (nat (t mod max 1 W)) line) lines)"
  by (simp add: shift_lines_def py_mod_max slice_nonneg)

lemma drop_take_rotate: "n \<le> length xs \<Longrightarrow> drop n xs @ take n xs = rotate n xs"
  by (cases "n = length xs") (simp_all add: rotate_drop_take)

lemma max_len_Max: "max_len raw = Max (insert 0 (length ` set raw))"
  unfolding max_len_def using Max.set_eq_fold [of 0 "map length raw"] by simp

lemma max_len_ge: "l \<in> set raw \<Longrightarrow> length l \<le> max_len raw"
  by (simp add: max_len_Max)

lemma max_len_le: "(\<And>l. l \<in> set raw \<Longrightarrow> length l \<le> L) \<Longrightarrow> max_len raw \<le> L"
  by (auto simp add: max_len_Max)

lemma dropWhile_all_iff:
  "(\<forall>x \<in> set (dropWhile P xs). P x) \<longleftrightarrow> (\<forall>x \<in> set xs. P x)"
  by (induction xs) auto

lemma strip_empty_iff: "str_strip ln = [] \<longleftrightarrow> (\<forall>c \<in> set ln. isspace c)"
  using dropWhile_all_iff [of isspace "rev ln"]
  by (simp add: str_strip_def str_rstrip_def dropWhile_eq_Nil_conv)

lemma rstrip_decomp:
  "\<exists>ws. ln = str_rstrip ln @ ws \<and> (\<forall>c \<in> set ws. isspace c)"
proof -
  have "rev ln = takeWhile isspace (rev ln) @ dropWhile isspace (rev ln)" by simp
  then have "ln = rev (dropWhile isspace (rev ln)) @ rev (takeWhile isspace (rev ln))"
    by (metis rev_append rev_rev_ident)
  moreover have "\<forall>c \<in> set (rev (takeWhile isspace (rev ln))). isspace c"
    by (auto dest: set_takeWhileD)
  ultimately show ?thesis unfolding str_rstrip_def by blast
qed

lemma rstrip_last: "str_rstrip ln \<noteq> [] \<Longrightarrow> \<not> isspace (last (str_rstrip ln))"
  unfolding str_rstrip_def
  by (metis (mono_tags, lifting) dropWhile_eq_Nil_conv hd_dropWhile hd_rev rev.simps(1) rev_rev_ident)

lemma replicate_num: "replicate (numeral k) x = x # replicate (pred_numeral k) x"
  by (simp add: numeral_eq_Suc)

lemma str_space: "str '' '' = [32]"
  by (simp add: str_def)

lemma isspace_32: "isspace 32"
  by (simp add: isspace_def)

lemma split_scan_words:
  "w \<in> set (split_scan cur s) \<Longrightarrow> \<forall>c \<in> set cur. \<not> isspace c \<Longrightarrow>
     w \<noteq> [] \<and> (\<forall>c \<in> set w. \<not> isspace c)"
proof (induction s arbitrary: cur)
  case Nil
  then show ?case by (cases "cur = []") simp_all
next
  case (Cons c cs)
  show ?case
  proof (cases "isspace c")
    case True
    show ?thesis
    proof (cases "cur = []")
      case True
      with \<open>isspace c\<close> Cons.prems have "w \<in> set (split_scan [] cs)" by simp
      then show ?thesis by (rule Cons.IH) simp
    next
      case False
      with \<open>isspace c\<close> Cons.prems have "w = cur \<or> w \<in> set (split_scan [] cs)" by simp
      then show ?thesis
      proof
        assume "w = cur"
        with False Cons.prems show ?thesis by simp
      next
        assume "w \<in> set (split_scan [] cs)"
        then show ?thesis by (rule Cons.IH) simp
      qed
    qed
  next
    case False
    with Cons.prems have "w \<in> set (split_scan (cur @ [c]) cs)" by simp
    then show ?thesis
      by (rule Cons.IH) (use False Cons.prems in simp)
  qed
qed

lemma split_scan_concat:
  "concat (split_scan cur s) = cur @ filter (\<lambda>c. \<not> isspace c) s"
  by (induction s arbitrary: cur) simp_all

lemma split_scan_word:
  "\<forall>c \<in> set w. \<not> isspace c \<Longrightarrow> split_scan cur (w @ r) = split_scan (cur @ w) r"
  by (induction w arbitrary: cur) simp_all
lemma split_join:
  "\<forall>w \<in> set ws. w \<noteq> [] \<and> (\<forall>c \<in> set w. \<not> isspace c) \<Longrightarrow>
     split_scan [] (str_join [32] ws) = ws"
proof (induction "[32::nat]" ws rule: str_join.induct)
  case 1
  then show ?case by simp
next
  case (2 w)
  then have "split_scan [] (w @ []) = split_scan ([] @ w) []"
    by (intro split_scan_word) simp
  with 2 show ?case by simp
next
  case (3 w v vs)
  then have "split_scan [] (w @ (32 # str_join [32] (v # vs))) =
      split_scan ([] @ w) (32 # str_join [32] (v # vs))"
    by (intro split_scan_word) simp
  with 3 show ?case by (simp add: isspace_32)
qed

lemma join_spaces:
  "\<forall>w \<in> set ws. \<forall>c \<in> set w. \<not> isspace c \<Longrightarrow>
     c \<in> set (str_join [32] ws) \<Longrightarrow> isspace c \<Longrightarrow> c = 32"
  by (induction "[32::nat]" ws rule: str_join.induct) auto

lemma join_hd:
  "\<forall>w \<in> set ws. w \<noteq> [] \<and> (\<forall>c \<in> set w. \<not> isspace c) \<Longrightarrow> ws \<noteq> [] \<Longrightarrow>
     str_join [32] ws \<noteq> [] \<and> \<not> isspace (hd (str_join [32] ws))"
  by (induction "[32::nat]" ws rule: str_join.induct) auto

lemma join_last:
  "\<forall>w \<in> set ws. w \<noteq> [] \<and> (\<forall>c \<in> set w. \<not> isspace c) \<Longrightarrow> ws \<noteq> [] \<Longrightarrow>
     \<not> isspace (last (str_join [32] ws))"
  by (induction "[32::nat]" ws rule: str_join.induct) (auto simp add: join_hd)
lemma word_then_double:
  "\<forall>c \<in> set w. c \<noteq> (32::nat) \<Longrightarrow> w @ 32 # r = ps @ 32 # 32 # ss \<Longrightarrow> r \<noteq> [] \<Longrightarrow>
     hd r \<noteq> 32 \<Longrightarrow> \<exists>ps'. r = ps' @ 32 # 32 # ss"
proof (induction w arbitrary: ps)
  case Nil
  then show ?case by (cases ps) auto
next
  case (Cons x w)
  then show ?case by (cases ps) auto
qed

lemma word_no_double:
  "\<forall>c \<in> set w. c \<noteq> (32::nat) \<Longrightarrow> w \<noteq> ps @ 32 # 32 # ss"
  by auto

lemma join_no_double:
  "\<forall>w \<in> set ws. w \<noteq> [] \<and> (\<forall>c \<in> set w. \<not> isspace c) \<Longrightarrow>
     str_join [32] ws \<noteq> ps @ 32 # 32 # ss"
proof (induction "[32::nat]" ws arbitrary: ps rule: str_join.induct)
  case 1
  then show ?case by simp
next
  case (2 w)
  then have "\<forall>c \<in> set w. c \<noteq> 32" using isspace_32 by auto
  then show ?case using word_no_double by simp
next
  case (3 w v vs)
  let ?r = "str_join [32] (v # vs)"
  from 3 have nw: "\<forall>c \<in> set w. c \<noteq> 32" using isspace_32 by auto
  from 3 have ok: "\<forall>w \<in> set (v # vs). w \<noteq> [] \<and> (\<forall>c \<in> set w. \<not> isspace c)" by simp
  from join_hd [OF ok] have r: "?r \<noteq> []" "hd ?r \<noteq> 32" using isspace_32 by auto
  show ?case
  proof
    assume "str_join [32] (w # v # vs) = ps @ 32 # 32 # ss"
    then have "w @ 32 # ?r = ps @ 32 # 32 # ss" by simp
    from word_then_double [OF nw this r] obtain ps' where "?r = ps' @ 32 # 32 # ss" by blast
    with 3(1) [OF ok] show False by blast
  qed
qed

section \<open>Facts about the compositor\<close>

lemma ESC_K_eq: "ESC_K = [27, 91, 75]"
  by (simp add: ESC_K_def str_def)

lemma ESC_J_eq: "ESC_J = [27, 91, 74]"
  by (simp add: ESC_J_def str_def)

lemma print_lines_ok:
  "\<forall>l \<in> set ls. \<exists>printed. console l = Inr printed \<Longrightarrow>
     print_lines console buf ls =
       Inr (buf @ concat (map (\<lambda>l. projr (console l) @ ESC_K @ NEWLINE) ls))"
  by (induction ls arbitrary: buf) (auto simp add: print_line_and_clear_def)

lemma print_lines_fails:
  "\<exists>l \<in> set ls. \<exists>e. console l = Inl e \<Longrightarrow> \<exists>e. print_lines console buf ls = Inl e"
proof (induction ls arbitrary: buf)
  case Nil
  then show ?case by simp
next
  case (Cons l ls)
  show ?case
  proof (cases "console l")
    case (Inl e)
    then show ?thesis by (simp add: print_line_and_clear_def)
  next
    case (Inr printed)
    with Cons.prems have "\<exists>l \<in> set ls. \<exists>e. console l = Inl e" by auto
    from Cons.IH [OF this] Inr show ?thesis by (simp add: print_line_and_clear_def)
  qed
qed

lemma occurs_straddle:
  "a \<noteq> [] \<Longrightarrow> k \<noteq> 27 \<Longrightarrow>
     (take 3 (a @ 27 # 91 # k' # r) = [27, 91, k]) = (take 3 a = [27, 91, k::nat])"
proof (cases a)
  case Nil
  assume "a \<noteq> []" with Nil show ?thesis by simp
next
  case (Cons x b)
  assume k: "k \<noteq> 27"
  show ?thesis
  proof (cases b)
    case Nil
    with Cons show ?thesis by simp
  next
    case (Cons y c)
    with \<open>a = x # b\<close> k show ?thesis by (cases c) auto
  qed
qed

lemma count_esc_tail:
  "k \<noteq> 27 \<Longrightarrow> k \<noteq> 91 \<Longrightarrow>
     count_seq [27, 91, k] (27 # 91 # k' # 10 # r) =
       (if k' = k then 1 else 0) + count_seq [27, 91, k::nat] r"
  by simp

lemma count_seq_step3:
  "count_seq [p1, p2, p3] (x # xs) =
     (if take 3 (x # xs) = [p1, p2, p3] then 1 else 0) + count_seq [p1, p2, p3] xs"
proof -
  have "length [p1, p2, p3] = 3" by simp
  then show ?thesis unfolding count_seq.simps by (simp only:)
qed

lemma count_esc_piece:
  "k \<noteq> 27 \<Longrightarrow> k \<noteq> 91 \<Longrightarrow>
     count_seq [27, 91, k] (a @ 27 # 91 # k' # 10 # r) =
       count_seq [27, 91, k] a + (if k' = k then 1 else 0) + count_seq [27, 91, k::nat] r"
proof (induction a)
  case Nil
  then show ?case using count_esc_tail [of k k' r] by simp
next
  case (Cons x a)
  let ?T = "27 # 91 # k' # 10 # r"
  let ?P = "[27, 91, k]"
  have st: "(take 3 ((x # a) @ ?T) = ?P) = (take 3 (x # a) = ?P)"
    using Cons.prems by (intro occurs_straddle) simp_all
  have "count_seq ?P ((x # a) @ ?T) =
      (if take 3 ((x # a) @ ?T) = ?P then 1 else 0) + count_seq ?P (a @ ?T)"
    unfolding append_Cons by (rule count_seq_step3)
  also have "\<dots> = (if take 3 (x # a) = ?P then 1 else 0) +
      (count_seq ?P a + (if k' = k then 1 else 0) + count_seq ?P r)"
    unfolding st using Cons.IH [OF Cons.prems] by (simp only:)
  also have "\<dots> = count_seq ?P (x # a) + (if k' = k then 1 else 0) + count_seq ?P r"
    unfolding count_seq_step3 [of 27 91 k x a] by (simp only: add.assoc)
  finally show ?case .
qed

lemma count_body:
  "k \<noteq> 27 \<Longrightarrow> k \<noteq> 91 \<Longrightarrow>
     count_seq [27, 91, k::nat] (concat (map (\<lambda>l. f l @ [27, 91, 75] @ [10]) ls) @ [27, 91, 74]) =
       sum_list (map (\<lambda>l. count_seq [27, 91, k] (f l)) ls)
         + (if k = 75 then length ls else 0) + (if k = 74 then 1 else (0::nat))"
proof (induction ls)
  case Nil
  then show ?case by simp
next
  case (Cons l ls)
  let ?rest = "concat (map (\<lambda>l. f l @ [27, 91, 75] @ [10]) ls) @ [27, 91, 74]"
  have "concat (map (\<lambda>l. f l @ [27, 91, 75] @ [10]) (l # ls)) @ [27, 91, 74] =
      f l @ 27 # 91 # 75 # 10 # ?rest" by simp
  then have "count_seq [27, 91, k] (concat (map (\<lambda>l. f l @ [27, 91, 75] @ [10]) (l # ls)) @ [27, 91, 74])
      = count_seq [27, 91, k] (f l) + (if 75 = k then 1 else 0) + count_seq [27, 91, k] ?rest"
    using count_esc_piece [OF Cons.prems, of "f l" 75 ?rest] by (simp only:)
  with Cons.IH [OF Cons.prems] show ?case by auto
qed

lemma sum_list_zero: "\<forall>x \<in> set xs. f x = (0::nat) \<Longrightarrow> sum_list (map f xs) = 0"
  by (induction xs) simp_all

lemma last_pieces:
  "ls \<noteq> [] \<Longrightarrow> concat (map (\<lambda>l. g l @ [x]) ls) \<noteq> [] \<and> last (concat (map (\<lambda>l. g l @ [x]) ls)) = x"
  by (induction ls rule: rev_induct) simp_all


section \<open>Facts about the frame store\<close>

lemma check_frames_bad:
  "\<exists>fr \<in> set frames. \<forall>s. fr \<noteq> JString s \<Longrightarrow>
     \<exists>i < length frames. (\<forall>s. frames ! i \<noteq> JString s) \<and> (\<forall>j < i. \<exists>s. frames ! j = JString s)
       \<and> check_frames n frames = Inl (ValueError (FrameNotString (n + i)))"
proof (induction frames arbitrary: n)
  case Nil
  then show ?case by simp
next
  case (Cons x xs)
  show ?case
  proof (cases "\<exists>s. x = JString s")
    case True
    then obtain s where x: "x = JString s" by blast
    with Cons.prems have "\<exists>fr \<in> set xs. \<forall>s. fr \<noteq> JString s" by auto
    from Cons.IH [OF this, of "Suc n"] obtain i where i: "i < length xs"
      "\<forall>s. xs ! i \<noteq> JString s" "\<forall>j < i. \<exists>s. xs ! j = JString s"
      "check_frames (Suc n) xs = Inl (ValueError (FrameNotString (Suc n + i)))" by blast
    have "\<forall>j < Suc i. \<exists>s. (x # xs) ! j = JString s"
    proof (intro allI impI)
      fix j assume "j < Suc i"
      then show "\<exists>s. (x # xs) ! j = JString s" using x i(3) by (cases j) auto
    qed
    with i x show ?thesis by (intro exI [of _ "Suc i"]) simp
  next
    case False
    then have "check_frames n (x # xs) = Inl (ValueError (FrameNotString n))"
      by (cases x) auto
    with False show ?thesis by (intro exI [of _ 0]) simp
  qed
qed

lemma check_frames_ok:
  "\<forall>fr \<in> set frames. \<exists>s. fr = JString s \<Longrightarrow>
     \<exists>fs. check_frames n frames = Inr fs \<and> map JString fs = frames"
proof (induction frames arbitrary: n)
  case Nil
  then show ?case by simp
next
  case (Cons x xs)
  then obtain s where x: "x = JString s" by auto
  from Cons.prems have "\<forall>fr \<in> set xs. \<exists>s. fr = JString s" by simp
  from Cons.IH [OF this, of "Suc n"] obtain fs where
    "check_frames (Suc n) xs = Inr fs" "map JString fs = xs" by blast
  with x show ?case by simp
qed

lemma check_frames_Inr: "check_frames n frames = Inr fs \<Longrightarrow> map JString fs = frames"
proof (induction frames arbitrary: n fs)
  case Nil
  then show ?case by simp
next
  case (Cons x xs)
  show ?case
  proof (cases x)
    case (JString s)
    with Cons.prems obtain fs' where fs': "check_frames (Suc n) xs = Inr fs'" "fs = s # fs'"
      by (auto split: sum.splits)
    from Cons.IH [OF fs'(1)] fs'(2) JString show ?thesis by simp
  qed (use Cons.prems in simp_all)
qed

lemma body_not_abs:
  "\<not> isabs env p \<Longrightarrow> load_json_frames_body env p = Inl (ValueError (PathNotAbsolute p))"
  by (simp add: load_json_frames_body_def)

lemma body_ok_abs: "load_json_frames_body env p = Inr fs \<Longrightarrow> isabs env p \<and> fs \<noteq> []"
  by (auto simp add: load_json_frames_body_def dest!: check_frames_Inr
      split: if_splits sum.splits json.splits)

lemma lru_miss_fail:
  "map_of (entries c) k = None \<Longrightarrow> f k = Inl e \<Longrightarrow>
     lru_call f k c = (Inl e, c\<lparr>misses := misses c + 1\<rparr>)"
  by (simp add: lru_call_def)

lemma lru_miss_ok:
  "map_of (entries c) k = None \<Longrightarrow> f k = Inr v \<Longrightarrow>
     lru_call f k c =
       (Inr v, c\<lparr>entries := (k, v) #
                     (if maxsize \<le> length (entries c) then butlast (entries c) else entries c),
                  misses := misses c + 1\<rparr>)"
  by (simp add: lru_call_def)

lemma lru_hit:
  "map_of (entries c) k = Some v \<Longrightarrow>
     lru_call f k c =
       (Inr v, c\<lparr>entries := (k, v) # filter (\<lambda>kv. fst kv \<noteq> k) (entries c), hits := hits c + 1\<rparr>)"
  by (simp add: lru_call_def)

lemma lru_fail_is_miss:
  "lru_call f k c = (Inl e, c') \<Longrightarrow>
     map_of (entries c) k = None \<and> f k = Inl e \<and> c' = c\<lparr>misses := misses c + 1\<rparr>"
  by (auto simp add: lru_call_def split: option.splits sum.splits)

lemma not_cached:
  "\<forall>k \<in> fst ` set (entries c). isabs env k \<Longrightarrow> \<not> isabs env p \<Longrightarrow> map_of (entries c) p = None"
  by (auto simp add: map_of_eq_None_iff)
lemma lru_call_length:
  "length (entries c) \<le> maxsize \<Longrightarrow> length (entries (snd (lru_call f k c))) \<le> maxsize"
proof (cases "map_of (entries c) k")
  case None
  assume le: "length (entries c) \<le> maxsize"
  show ?thesis
  proof (cases "f k")
    case (Inl e)
    with None le show ?thesis by (simp add: lru_call_def)
  next
    case (Inr v)
    with None le show ?thesis by (auto simp add: lru_call_def maxsize_def)
  qed
next
  case (Some v)
  assume le: "length (entries c) \<le> maxsize"
  from Some have "(k, v) \<in> set (entries c)" by (rule map_of_SomeD)
  then have "length (filter (\<lambda>kv. fst kv \<noteq> k) (entries c)) < length (entries c)"
    by (intro length_filter_less [of "(k, v)"]) simp_all
  with Some le show ?thesis by (simp add: lru_call_def)
qed

lemma lru_call_distinct:
  "distinct (map fst (entries c)) \<Longrightarrow> distinct (map fst (entries (snd (lru_call f k c))))"
proof (cases "map_of (entries c) k")
  case None
  assume d: "distinct (map fst (entries c))"
  from None have nk: "k \<notin> fst ` set (entries c)" by (simp add: map_of_eq_None_iff)
  then have nk': "k \<notin> fst ` set (butlast (entries c))" by (auto dest: in_set_butlastD)
  from d have "distinct (map fst (butlast (entries c)))"
    by (simp add: map_butlast distinct_butlast)
  with None d nk nk' show ?thesis
    by (cases "f k") (simp_all add: lru_call_def)
next
  case (Some v)
  assume d: "distinct (map fst (entries c))"
  then have "distinct (map fst (filter (\<lambda>kv. fst kv \<noteq> k) (entries c)))"
    by (rule distinct_map_filter)
  with Some show ?thesis by (auto simp add: lru_call_def)
qed

lemma lru_call_ok_cached:
  "lru_call f k c = (Inr v, c') \<Longrightarrow> map_of (entries c') k = Some v"
  by (auto simp add: lru_call_def split: option.splits sum.splits)

lemma lru_hits_repeat:
  "map_of (entries c) k = Some v \<Longrightarrow>
     map_of (entries (((\<lambda>c. snd (lru_call f k c)) ^^ n) c)) k = Some v
     \<and> misses (((\<lambda>c. snd (lru_call f k c)) ^^ n) c) = misses c"
  by (induction n) (simp_all add: lru_hit)

lemma load_keys_abs:
  assumes keys: "\<forall>k \<in> fst ` set (entries c). isabs env k"
  shows "\<forall>k \<in> fst ` set (entries (snd (load_json_frames env p c))). isabs env k"
proof (cases "map_of (entries c) p")
  case None
  show ?thesis
  proof (cases "load_json_frames_body env p")
    case (Inl e)
    with None keys show ?thesis by (simp add: load_json_frames_def lru_call_def)
  next
    case (Inr v)
    from body_ok_abs [OF Inr] have "isabs env p" by simp
    with Inr None keys show ?thesis
      by (auto simp add: load_json_frames_def lru_call_def dest: in_set_butlastD)
  qed
next
  case (Some v)
  from map_of_SomeD [OF Some] keys have "isabs env p" by force
  with Some keys show ?thesis by (auto simp add: load_json_frames_def lru_call_def)
qed

section \<open>Facts about the animation stream\<close>

lemma encode_ascii: "\<forall>c \<in> set s. c < 128 \<Longrightarrow> encode_utf8 s = Inr s"
  by (induction s) (simp_all add: utf8_char_def)

lemma end_seq_eq:
  "end_seq True = [27, 91, 63, 50, 53, 104, 27, 91, 63, 49, 48, 52, 57, 108]"
  "end_seq False = [27, 91, 63, 50, 53, 104]"
  by (simp_all add: end_seq_def SHOW_CURSOR_def EXIT_ALT_def str_def)

lemma start_seq_eq:
  "start_seq True = [27, 91, 63, 49, 48, 52, 57, 104, 27, 91, 50, 74, 27, 91, 72,
                     27, 91, 63, 50, 53, 108]"
  "start_seq False = [27, 91, 50, 74, 27, 91, 72, 27, 91, 63, 50, 53, 108]"
  by (simp_all add: start_seq_def ENTER_ALT_def CLEAR_SCREEN_def HOME_def HIDE_CURSOR_def str_def)

lemma encode_end_seq: "encode_utf8 (end_seq alt) = Inr (end_seq alt)"
  by (rule encode_ascii, cases alt) (simp_all add: end_seq_eq)

lemma encode_start_seq: "encode_utf8 (start_seq alt) = Inr (start_seq alt)"
  by (rule encode_ascii, cases alt) (simp_all add: start_seq_eq)

lemma encode_home: "encode_utf8 (HOME @ content) = Inr b \<Longrightarrow> take 3 b = [27, 91, 72]"
  by (auto simp add: HOME_def str_def utf8_char_def split: sum.splits)

lemma frame_chunk_home: "frame_chunk console g i off = Inr b \<Longrightarrow> take 3 b = [27, 91, 72]"
  by (auto simp add: frame_chunk_def split: sum.splits if_splits dest: encode_home)

lemma frame_chunk_not_end: "frame_chunk console g i off = Inr b \<Longrightarrow> b \<noteq> end_seq alt"
  by (cases alt) (auto dest!: frame_chunk_home simp add: end_seq_eq)

lemma frame_chunk_not_start: "frame_chunk console g i off = Inr b \<Longrightarrow> b \<noteq> start_seq alt"
  by (cases alt) (auto dest!: frame_chunk_home simp add: start_seq_eq)

lemma start_not_end: "start_seq alt \<noteq> end_seq alt'"
  by (cases alt; cases alt') (simp_all add: start_seq_eq end_seq_eq)

lemma session_setup_locals:
  "session_setup env a c = (Inr g, c') \<Longrightarrow>
     g_start g = start_seq (alt_screen a) \<and> g_end g = end_seq (alt_screen a)
     \<and> g_banner_color g = banner_color a
     \<and> load_json_frames env (json_path a) c = (Inr (g_frames g), c')"
  by (auto simp add: session_setup_def Let_def split: prod.splits sum.splits)

lemma raise_in_try_end:
  "g_end g = end_seq alt \<Longrightarrow>
     raise_in_try g e = (Some (end_seq alt), AtYieldEnd (if e = CancelledError then None else Some e))"
  by (simp add: raise_in_try_def enter_finally_def encode_end_seq)


lemma run_append:
  "run env console s (xs @ ys) =
     (fst (run env console s xs) @ fst (run env console (snd (run env console s xs)) ys),
      snd (run env console (snd (run env console s xs)) ys))"
  by (induction xs arbitrary: s) (auto split: prod.splits option.splits)









lemma cycle:
  assumes n: "length (g_frames g) = n" "1 \<le> n"
      and fc: "frame_chunk console g (Suc j mod n) off = Inr b"
  shows "run env console (c, AtYieldFrame g (j mod n) off) [Resume, Resume] =
           ([b], (c, AtYieldFrame g (Suc j mod n) (off + 1)))"
proof -
  have 1: "gen_step env console (c, AtYieldFrame g (j mod n) off) Resume =
      (None, (c, AtSleep g (j mod n) off))"
    by (simp add: gen_step_def)
  have lt: "j mod n < n" using n by simp
  have idx: "(if Suc (j mod n) < n then Suc (j mod n) else 0) = Suc j mod n"
    using lt by (auto simp add: mod_Suc)
  have "in_session console (AtSleep g (j mod n) off) Resume =
      next_frame console g (Suc j mod n) off"
    using idx n by (cases "Suc (j mod n) < n") simp_all
  then have 2: "gen_step env console (c, AtSleep g (j mod n) off) Resume =
      (Some b, (c, AtYieldFrame g (Suc j mod n) (off + 1)))"
    using fc by (simp add: gen_step_def next_frame_def)
  from 1 2 show ?thesis by simp
qed

lemma frames_from_start:
  assumes n: "length (g_frames g) = n" "1 \<le> n"
      and chunks: "\<forall>k \<le> j. frame_chunk console g (k mod n) (int k) = Inr (out k)"
  shows "run env console (c, AtYieldStart g) (replicate (2 * j + 1) Resume) =
           (map out [0..<Suc j], (c, AtYieldFrame g (j mod n) (int j + 1)))"
  using chunks
proof (induction j)
  case 0
  then have "frame_chunk console g 0 0 = Inr (out 0)" by simp
  then have "gen_step env console (c, AtYieldStart g) Resume =
      (Some (out 0), (c, AtYieldFrame g 0 1))"
    using n by (simp add: gen_step_def start_loop_def next_frame_def)
  then show ?case by simp
next
  case (Suc j)
  from Suc.prems have "frame_chunk console g (Suc j mod n) (int (Suc j)) = Inr (out (Suc j))"
    by blast
  moreover have "int (Suc j) = int j + 1" by simp
  ultimately have fc: "frame_chunk console g (Suc j mod n) (int j + 1) = Inr (out (Suc j))"
    by (simp only:)
  from Suc.prems have "\<forall>k \<le> j. frame_chunk console g (k mod n) (int k) = Inr (out k)" by simp
  from Suc.IH [OF this]
  have ih: "run env console (c, AtYieldStart g) (replicate (2 * j + 1) Resume) =
      (map out [0..<Suc j], (c, AtYieldFrame g (j mod n) (int j + 1)))" .
  have "2 * Suc j + 1 = (2 * j + 1) + 2" by simp
  then have "replicate (2 * Suc j + 1) Resume =
      replicate (2 * j + 1) Resume @ replicate 2 Resume"
    by (simp only: replicate_add)
  then have r: "replicate (2 * Suc j + 1) Resume = replicate (2 * j + 1) Resume @ [Resume, Resume]"
    by (simp add: numeral_2_eq_2)
  have o: "map out [0..<Suc (Suc j)] = map out [0..<Suc j] @ [out (Suc j)]" by simp
  have t: "int (Suc j) + 1 = int j + 1 + 1" by simp
  show ?case
    unfolding r run_append ih o t fst_conv snd_conv cycle [OF n fc, of env c] ..
qed

lemma cancel_in_sleep:
  assumes e: "g_end g = end_seq alt"
  shows "run env console (c, AtYieldFrame g i off) [Resume, Throw CancelledError, Resume] =
           ([end_seq alt], (c, Finished None))"
  by (simp add: gen_step_def raise_in_try_end [OF e])

lemma frame_chunk_eq:
  "view (g_banner_template g, g_banner_width g) off = Inr shifted \<Longrightarrow> i < length (g_frames g) \<Longrightarrow>
     render_frame_with_banner console (g_frames g ! i) shifted (g_banner_color g) = Inr content \<Longrightarrow>
     encode_utf8 (HOME @ content) = Inr b \<Longrightarrow>
     frame_chunk console g i off = Inr b"
  by (simp add: frame_chunk_def view_def)

lemma print_lines_Inr:
  "print_lines console buf ls = Inr r \<Longrightarrow>
     r = buf @ concat (map (\<lambda>l. projr (console l) @ ESC_K @ NEWLINE) ls)"
proof (induction ls arbitrary: buf)
  case Nil
  then show ?case by simp
next
  case (Cons l ls)
  from Cons.prems obtain printed where p: "console l = Inr printed"
    and r: "print_lines console (buf @ printed @ ESC_K @ NEWLINE) ls = Inr r"
    by (auto simp add: print_line_and_clear_def split: sum.splits)
  from Cons.IH [OF r] p show ?case by simp
qed

lemma render_Inr_prefix:
  assumes "render_frame_with_banner console frame banner color = Inr buf"
  shows "\<exists>rest. buf =
           concat (map (\<lambda>l. projr (console l) @ ESC_K @ NEWLINE) (str_splitlines frame)) @ rest"
proof -
  from assms obtain b1 where b1: "print_lines console [] (str_splitlines frame) = Inr b1"
    by (auto simp add: render_frame_with_banner_def split: sum.splits)
  with assms obtain b2 where b2: "print_line_and_clear console b1 [] = Inr b2"
    by (auto simp add: render_frame_with_banner_def split: sum.splits)
  with assms b1 obtain b3 where
    b3: "print_lines console b2 (map (banner_markup color) banner) = Inr b3" and buf: "buf = b3 @ ESC_J"
    by (auto simp add: render_frame_with_banner_def split: sum.splits)
  from b2 obtain x where "b2 = b1 @ x"
    by (auto simp add: print_line_and_clear_def split: sum.splits)
  moreover from print_lines_Inr [OF b3] obtain y where "b3 = b2 @ y" by blast
  moreover from print_lines_Inr [OF b1]
  have "b1 = concat (map (\<lambda>l. projr (console l) @ ESC_K @ NEWLINE) (str_splitlines frame))"
    by simp
  ultimately show ?thesis using buf by simp
qed

lemma render_console_ok:
  assumes "\<forall>l. \<exists>printed. console l = Inr printed"
  shows "\<exists>buf. render_frame_with_banner console frame banner color = Inr buf"
proof -
  from assms obtain sep where sep: "console [] = Inr sep" by blast
  have a: "\<forall>l \<in> set ls. \<exists>printed. console l = Inr printed" for ls
    using assms by simp
  show ?thesis
    unfolding render_frame_with_banner_def
    by (simp add: print_lines_ok [OF a] print_line_and_clear_def sep)
qed

section \<open>The banner track: claims\<close>

text \<open>
  Claim C6. For raw art lines whose longest non-blank line, without its trailing
  whitespace, has length \<open>L\<close>: building the block template drops the blank lines (the lines
  with no character other than whitespace), strips the trailing whitespace of the others
  and pads each with spaces, so that every line of the template has length exactly
  \<open>L + 10\<close> (\<open>PADDING\<close> is 10), which is also the width it reports. The last part says what
  stripping is: what is cut off is whitespace only, and what is left does not end in
  whitespace.
\<close>

theorem normalize_banner_lines_width:
  assumes ub: "\<forall>ln \<in> set lines. (\<exists>c \<in> set ln. \<not> isspace c) \<longrightarrow> length (str_rstrip ln) \<le> L"
      and at: "\<exists>ln \<in> set lines. (\<exists>c \<in> set ln. \<not> isspace c) \<and> length (str_rstrip ln) = L"
  shows "normalize_banner_lines lines PADDING =
           (map (\<lambda>ln. str_rstrip ln @ replicate (L + 10 - length (str_rstrip ln)) 32)
              (filter (\<lambda>ln. \<exists>c \<in> set ln. \<not> isspace c) lines), int L + 10)
       \<and> (\<forall>l \<in> set (fst (normalize_banner_lines lines PADDING)). length l = L + 10)
       \<and> snd (normalize_banner_lines lines PADDING) = int L + 10
       \<and> (\<forall>ln. \<exists>ws. ln = str_rstrip ln @ ws \<and> (\<forall>c \<in> set ws. isspace c)
                \<and> (str_rstrip ln \<noteq> [] \<longrightarrow> \<not> isspace (last (str_rstrip ln))))"
proof -
  let ?keep = "filter (\<lambda>ln. \<exists>c \<in> set ln. \<not> isspace c) lines"
  let ?raw = "map str_rstrip ?keep"
  have keep: "filter (\<lambda>ln. str_strip ln \<noteq> []) lines = ?keep"
    by (rule filter_cong) (auto simp add: strip_empty_iff)
  have "max_len ?raw \<le> L"
    using ub by (intro max_len_le) auto
  moreover have "L \<le> max_len ?raw"
  proof -
    from at obtain ln where "ln \<in> set lines" "\<exists>c \<in> set ln. \<not> isspace c"
      "length (str_rstrip ln) = L" by blast
    then have "str_rstrip ln \<in> set ?raw" by auto
    from max_len_ge [OF this] \<open>length (str_rstrip ln) = L\<close> show ?thesis by simp
  qed
  ultimately have ml: "max_len ?raw = L" by simp
  have fixed: "map (\<lambda>ln. str_ljust ln (int L + 10)) ?raw =
      map (\<lambda>ln. str_rstrip ln @ replicate (L + 10 - length (str_rstrip ln)) 32) ?keep"
  proof -
    have "str_ljust (str_rstrip ln) (int L + 10) =
        str_rstrip ln @ replicate (L + 10 - length (str_rstrip ln)) 32"
      if "ln \<in> set ?keep" for ln
    proof -
      from that ub have "length (str_rstrip ln) \<le> L" by auto
      then show ?thesis by (simp add: str_ljust_def nat_add_distrib)
    qed
    then show ?thesis by (simp add: comp_def)
  qed
  have eq: "normalize_banner_lines lines PADDING =
      (map (\<lambda>ln. str_rstrip ln @ replicate (L + 10 - length (str_rstrip ln)) 32) ?keep, int L + 10)"
    unfolding normalize_banner_lines_def Let_def keep ml PADDING_def fixed ..
  have len: "\<forall>l \<in> set (fst (normalize_banner_lines lines PADDING)). length l = L + 10"
    unfolding eq using ub by auto
  have rs: "\<forall>ln. \<exists>ws. ln = str_rstrip ln @ ws \<and> (\<forall>c \<in> set ws. isspace c)
                \<and> (str_rstrip ln \<noteq> [] \<longrightarrow> \<not> isspace (last (str_rstrip ln)))"
    using rstrip_decomp rstrip_last by blast
  from eq len rs show ?thesis by simp
qed

theorem normalize_banner_lines_width_witness:
  "normalize_banner_lines [str ''ab  '', str ''   '', str '' abc ''] PADDING
     = ([str ''ab            '', str '' abc          ''], 14)"
proof -
  let ?lines = "[str ''ab  '', str ''   '', str '' abc '']"
  have r: "str_rstrip (str ''ab  '') = str ''ab''" "str_rstrip (str '' abc '') = str '' abc''"
    by (simp_all add: str_def str_rstrip_def isspace_def)
  have b: "\<exists>c \<in> set (str ''ab  ''). \<not> isspace c" "\<not> (\<exists>c \<in> set (str ''   ''). \<not> isspace c)"
    "\<exists>c \<in> set (str '' abc ''). \<not> isspace c"
    by (simp_all add: str_def isspace_def)
  have len: "length (str ''ab'') = 2" "length (str '' abc'') = 4"
    by (simp_all add: str_def)
  have ub: "\<forall>ln \<in> set ?lines. (\<exists>c \<in> set ln. \<not> isspace c) \<longrightarrow> length (str_rstrip ln) \<le> 4"
    using b by (simp add: r len)
  have at: "\<exists>ln \<in> set ?lines. (\<exists>c \<in> set ln. \<not> isspace c) \<and> length (str_rstrip ln) = 4"
    using b by (simp add: r len)
  have keep: "filter (\<lambda>ln. \<exists>c \<in> set ln. \<not> isspace c) ?lines = [str ''ab  '', str '' abc '']"
    using b by simp
  have pad: "str ''ab'' @ replicate 12 32 = str ''ab            ''"
    "str '' abc'' @ replicate 10 32 = str '' abc          ''"
    by (simp_all add: str_def replicate_num)
  from normalize_banner_lines_width [OF ub at]
  have "normalize_banner_lines ?lines PADDING =
      (map (\<lambda>ln. str_rstrip ln @ replicate (4 + 10 - length (str_rstrip ln)) 32)
         (filter (\<lambda>ln. \<exists>c \<in> set ln. \<not> isspace c) ?lines), int 4 + 10)"
    by (rule conjunct1)
  then show ?thesis
    unfolding keep by (simp add: r len pad)
qed

text \<open>
  Claim C1. For a template whose lines all have length \<open>W\<close> and every integer tick \<open>t\<close>,
  the view is, line for line, \<open>line[o:] + line[:o]\<close> with the one offset
  \<open>o = t mod max 1 W\<close>, which is the left rotation of each line by \<open>o\<close>. For the
  one-line template \<open>ABCDE\<close> padded to width 7 the views at ticks 0, 1 and 7 are
  \<open>ABCDE  \<close>, \<open>BCDE  A\<close> and again the view at tick 0.
\<close>

theorem view_rotates:
  assumes "\<forall>line \<in> set lines. int (length line) = W"
  shows "view (lines, W) t =
           Inr (map (\<lambda>line. drop (nat (t mod max 1 W)) line @ take (nat (t mod max 1 W)) line) lines)
       \<and> view (lines, W) t = Inr (map (rotate (nat (t mod max 1 W))) lines)
       \<and> view ([str ''ABCDE  ''], 7) 0 = Inr [str ''ABCDE  '']
       \<and> view ([str ''ABCDE  ''], 7) 1 = Inr [str ''BCDE  A'']
       \<and> view ([str ''ABCDE  ''], 7) 7 = view ([str ''ABCDE  ''], 7) 0"
proof -
  let ?o = "nat (t mod max 1 W)"
  have a: "view (lines, W) t = Inr (map (\<lambda>line. drop ?o line @ take ?o line) lines)"
    by (simp add: view_def shift_lines_eq)
  have "drop ?o line @ take ?o line = rotate ?o line" if "line \<in> set lines" for line
  proof -
    have len: "int (length line) = W" using assms that by blast
    have "t mod max 1 W \<le> W"
    proof (cases "W = 0")
      case True then show ?thesis by simp
    next
      case False
      with len have "0 < W" by linarith
      then have "t mod max 1 W < W" by (simp add: max_def)
      then show ?thesis by simp
    qed
    then have "?o \<le> length line" using len by linarith
    then show ?thesis by (rule drop_take_rotate)
  qed
  then have b: "map (\<lambda>line. drop ?o line @ take ?o line) lines = map (rotate ?o) lines"
    by simp
  have c: "view ([str ''ABCDE  ''], 7) 0 = Inr [str ''ABCDE  '']"
    "view ([str ''ABCDE  ''], 7) 1 = Inr [str ''BCDE  A'']"
    "view ([str ''ABCDE  ''], 7) 7 = view ([str ''ABCDE  ''], 7) 0"
    by (simp_all add: view_def shift_lines_eq str_def)
  from a b c show ?thesis by simp
qed

theorem view_rotates_witness:
  "view ([str ''AB '', str ''CD ''], 3) 4 = Inr [str ''B A'', str ''D C'']"
proof -
  have h: "\<forall>line \<in> set [str ''AB '', str ''CD '']. int (length line) = 3"
    by (simp add: str_def)
  from view_rotates [OF h, of 4]
  have "view ([str ''AB '', str ''CD ''], 3) 4 =
      Inr (map (\<lambda>line. drop (nat (4 mod max 1 3)) line @ take (nat (4 mod max 1 3)) line)
        [str ''AB '', str ''CD ''])"
    by (rule conjunct1)
  then show ?thesis by (simp add: str_def)
qed

text \<open>
  Claim C8. For a template of width \<open>W \<ge> 1\<close> and ticks \<open>t1\<close>, \<open>t2\<close> that are congruent modulo
  \<open>W\<close>, the two views are equal: the scroll view has period \<open>W\<close>.
\<close>

theorem view_periodic:
  assumes "1 \<le> W" and "t1 mod W = t2 mod W"
  shows "view (lines, W) t1 = view (lines, W) t2"
  using assms by (simp add: view_def shift_lines_eq max_def)

theorem view_periodic_witness:
  "view ([str ''ABCDE  ''], 7) 15 = view ([str ''ABCDE  ''], 7) (- 6)"
proof -
  have h1: "(1::int) \<le> 7" by simp
  have h2: "(15::int) mod 7 = (- 6) mod 7" by simp
  from view_periodic [OF h1 h2] show ?thesis .
qed

text \<open>
  Claim C10. For every list of lines, every integer offset and every integer
  \<open>total_width\<close> (0 and negative ones too), \<open>shift_lines\<close> returns: the modulus
  \<open>max 1 total_width\<close> is never 0, so the remainder does not raise, the offset it gives is
  not negative, and slicing does not raise. The lines returned are as many as the input
  lines and each is as long as the input line at its place, so a template of equal-width
  lines stays one.
\<close>

theorem shift_lines_total:
  "\<exists>shifted. shift_lines lines offset total_width = Inr shifted
     \<and> map length shifted = map length lines
     \<and> ((\<forall>l \<in> set lines. length l = w) \<longrightarrow> (\<forall>l \<in> set shifted. length l = w))
     \<and> py_mod offset (max 1 total_width) = Inr (offset mod max 1 total_width)
     \<and> 0 \<le> offset mod max 1 total_width \<and> max 1 total_width \<noteq> 0"
  by (auto simp add: shift_lines_eq py_mod_max comp_def)

theorem shift_lines_total_witness:
  "\<exists>shifted. shift_lines [str ''abc'', str ''def''] (- 5) 0 = Inr shifted
     \<and> map length shifted = [3, 3]"
  using shift_lines_total [of "[str ''abc'', str ''def'']" "- 5" 0 3]
  by (auto simp add: str_def)

text \<open>
  Claim C7. Building a ticker from a caption normalises the caption: \<open>base\<close> is the words
  of the caption (its maximal runs of non-whitespace characters, so its non-whitespace
  content in order) joined by single spaces. Thus \<open>base\<close> has the same words as the
  caption, its only whitespace is the space character, it neither starts nor ends with
  whitespace and has no two spaces in a row. The template is the one line \<open>base\<close> padded
  with spaces to the width, and the width is the length of this normalised caption plus
  \<open>PADDING\<close>, which is 10.
\<close>

theorem make_ticker_lines_width:
  "\<exists>base. make_ticker_lines caption PADDING = ([base @ replicate 10 32], int (length base) + 10)
     \<and> length (base @ replicate 10 32) = length base + 10
     \<and> base = str_join (str '' '') (str_split caption)
     \<and> str_split base = str_split caption
     \<and> concat (str_split caption) = filter (\<lambda>c. \<not> isspace c) caption
     \<and> (\<forall>w \<in> set (str_split caption). w \<noteq> [] \<and> (\<forall>c \<in> set w. \<not> isspace c))
     \<and> (\<forall>c \<in> set base. isspace c \<longrightarrow> c = 32)
     \<and> (base \<noteq> [] \<longrightarrow> \<not> isspace (hd base) \<and> \<not> isspace (last base))
     \<and> (\<forall>ps ss. base \<noteq> ps @ [32, 32] @ ss)"
proof -
  let ?ws = "str_split caption"
  let ?base = "str_join [32] ?ws"
  have words: "\<forall>w \<in> set ?ws. w \<noteq> [] \<and> (\<forall>c \<in> set w. \<not> isspace c)"
    unfolding str_split_def using split_scan_words [of _ "[]" caption] by simp
  have mk: "make_ticker_lines caption PADDING =
      ([?base @ replicate 10 32], int (length ?base) + 10)"
    by (simp add: make_ticker_lines_def PADDING_def str_space str_ljust_def Let_def nat_add_distrib)
  have same: "str_split ?base = ?ws"
    unfolding str_split_def [of ?base] by (rule split_join) (rule words)
  have content: "concat ?ws = filter (\<lambda>c. \<not> isspace c) caption"
    by (simp add: str_split_def split_scan_concat)
  have sp: "\<forall>c \<in> set ?base. isspace c \<longrightarrow> c = 32"
    using join_spaces [of ?ws] words by blast
  have ends: "?base \<noteq> [] \<longrightarrow> \<not> isspace (hd ?base) \<and> \<not> isspace (last ?base)"
  proof
    assume "?base \<noteq> []"
    then have "?ws \<noteq> []" by auto
    with join_hd [OF words] join_last [OF words] show "\<not> isspace (hd ?base) \<and> \<not> isspace (last ?base)"
      by simp
  qed
  have nd: "\<forall>ps ss. ?base \<noteq> ps @ [32, 32] @ ss"
    using join_no_double [OF words] by simp
  from mk same content words sp ends nd show ?thesis
    by (intro exI [of _ ?base]) (simp add: str_space)
qed

theorem make_ticker_lines_width_witness:
  "make_ticker_lines (str ''  a   b '') PADDING = ([str ''a b          ''], 13)"
proof -
  have j: "str_join (str '' '') (str_split (str ''  a   b '')) = str ''a b''"
    by (simp add: str_split_def str_def isspace_def)
  from make_ticker_lines_width [of "str ''  a   b ''"] obtain base where
    "make_ticker_lines (str ''  a   b '') PADDING = ([base @ replicate 10 32], int (length base) + 10)"
    and "base = str_join (str '' '') (str_split (str ''  a   b ''))"
    by blast
  with j show ?thesis by (simp add: str_def replicate_num)
qed

section \<open>The frame compositor: claims\<close>

text \<open>
  Claim C3. Whenever the console prints every emitted line (the lines of the content
  frame, one empty separator line and the marked-up banner lines), the composed buffer is,
  for each emitted line in order, what the console printed for it followed by one
  \<^verbatim>\<open>ESC[K\<close> and a newline, and then one final \<^verbatim>\<open>ESC[J\<close>, which the newline before it
  separates from everything else. So the compositor writes exactly one \<^verbatim>\<open>ESC[K\<close> per
  emitted line and exactly one \<^verbatim>\<open>ESC[J\<close>, at the end: the buffer holds these and the ones
  the console's own output holds, and when the console's output holds none (Rich emits
  colour sequences only) the buffer has exactly one \<^verbatim>\<open>ESC[K\<close> per emitted line and exactly
  one \<^verbatim>\<open>ESC[J\<close>.
\<close>

theorem render_frame_clears:
  assumes ok: "\<forall>l \<in> set (str_splitlines frame @ [[]] @ map (banner_markup color) banner).
                 \<exists>printed. console l = Inr printed"
  shows "\<exists>buf body emitted.
       emitted = str_splitlines frame @ [[]] @ map (banner_markup color) banner
     \<and> render_frame_with_banner console frame banner color = Inr buf
     \<and> body = concat (map (\<lambda>l. projr (console l) @ ESC_K @ NEWLINE) emitted)
     \<and> buf = body @ ESC_J \<and> body \<noteq> [] \<and> last body = 10
     \<and> count_seq ESC_K buf =
         length emitted + sum_list (map (\<lambda>l. count_seq ESC_K (projr (console l))) emitted)
     \<and> count_seq ESC_J buf =
         1 + sum_list (map (\<lambda>l. count_seq ESC_J (projr (console l))) emitted)
     \<and> ((\<forall>l \<in> set emitted. count_seq ESC_K (projr (console l)) = 0) \<longrightarrow>
          count_seq ESC_K buf = length (str_splitlines frame) + 1 + length banner)
     \<and> ((\<forall>l \<in> set emitted. count_seq ESC_J (projr (console l)) = 0) \<longrightarrow>
          count_seq ESC_J buf = 1)"
proof -
  let ?content = "str_splitlines frame"
  let ?marked = "map (banner_markup color) banner"
  let ?emitted = "?content @ [[]] @ ?marked"
  let ?piece = "\<lambda>l. projr (console l) @ ESC_K @ NEWLINE"
  let ?body = "concat (map ?piece ?emitted)"
  let ?buf = "?body @ ESC_J"
  from ok have ok1: "\<forall>l \<in> set ?content. \<exists>printed. console l = Inr printed" by simp
  from ok obtain sep where sep: "console [] = Inr sep" by auto
  from ok have ok3: "\<forall>l \<in> set ?marked. \<exists>printed. console l = Inr printed" by simp
  have r: "render_frame_with_banner console frame banner color = Inr ?buf"
    unfolding render_frame_with_banner_def
    by (simp add: print_lines_ok [OF ok1] print_lines_ok [OF ok3] print_line_and_clear_def sep)
  have body: "?body \<noteq> [] \<and> last ?body = 10"
    using last_pieces [of ?emitted "\<lambda>l. projr (console l) @ ESC_K" 10]
    by (simp add: NEWLINE_def)
  have cK: "count_seq ESC_K ?buf =
      length ?emitted + sum_list (map (\<lambda>l. count_seq ESC_K (projr (console l))) ?emitted)"
    unfolding ESC_K_eq ESC_J_eq NEWLINE_def
    using count_body [of 75 "\<lambda>l. projr (console l)" ?emitted] by simp
  have cJ: "count_seq ESC_J ?buf =
      1 + sum_list (map (\<lambda>l. count_seq ESC_J (projr (console l))) ?emitted)"
    unfolding ESC_K_eq ESC_J_eq NEWLINE_def
    using count_body [of 74 "\<lambda>l. projr (console l)" ?emitted] by simp
  have zK: "(\<forall>l \<in> set ?emitted. count_seq ESC_K (projr (console l)) = 0) \<longrightarrow>
      count_seq ESC_K ?buf = length ?content + 1 + length banner"
  proof
    assume "\<forall>l \<in> set ?emitted. count_seq ESC_K (projr (console l)) = 0"
    then have "sum_list (map (\<lambda>l. count_seq ESC_K (projr (console l))) ?emitted) = 0"
      by (rule sum_list_zero)
    with cK show "count_seq ESC_K ?buf = length ?content + 1 + length banner" by simp
  qed
  have zJ: "(\<forall>l \<in> set ?emitted. count_seq ESC_J (projr (console l)) = 0) \<longrightarrow>
      count_seq ESC_J ?buf = 1"
  proof
    assume "\<forall>l \<in> set ?emitted. count_seq ESC_J (projr (console l)) = 0"
    then have "sum_list (map (\<lambda>l. count_seq ESC_J (projr (console l))) ?emitted) = 0"
      by (rule sum_list_zero)
    with cJ show "count_seq ESC_J ?buf = 1" by simp
  qed
  from r body cK cJ zK zJ show ?thesis by blast
qed

theorem render_frame_clears_witness:
  "\<exists>buf. render_frame_with_banner Inr (str ''ab'' @ 10 # str ''c'') [str ''XY''] (str ''1,2,3'') = Inr buf
     \<and> count_seq ESC_K buf = 4 \<and> count_seq ESC_J buf = 1"
proof -
  let ?frame = "str ''ab'' @ 10 # str ''c''"
  let ?emitted = "str_splitlines ?frame @ [[]] @ map (banner_markup (str ''1,2,3'')) [str ''XY'']"
  have sl: "str_splitlines ?frame = [str ''ab'', str ''c'']"
    by (simp add: str_splitlines_def str_def islinebreak_def)
  have mk: "banner_markup (str ''1,2,3'') (str ''XY'') = str ''[rgb(1,2,3)]XY[/]''"
    by (simp add: banner_markup_def str_def)
  have em: "?emitted = [str ''ab'', str ''c'', [], str ''[rgb(1,2,3)]XY[/]'']"
    by (simp add: sl mk)
  have ok: "\<forall>l \<in> set ?emitted. \<exists>printed. (Inr l :: pyexc + pystr) = Inr printed"
    by simp
  have zK: "\<forall>l \<in> set ?emitted. count_seq ESC_K (projr (Inr l :: pyexc + pystr)) = 0"
    unfolding em by (simp add: ESC_K_eq str_def)
  have zJ: "\<forall>l \<in> set ?emitted. count_seq ESC_J (projr (Inr l :: pyexc + pystr)) = 0"
    unfolding em by (simp add: ESC_J_eq str_def)
  from render_frame_clears [of ?frame "str ''1,2,3''" "[str ''XY'']" Inr, OF ok] zK zJ
  obtain buf where "render_frame_with_banner Inr ?frame [str ''XY''] (str ''1,2,3'') = Inr buf"
    and "count_seq ESC_K buf = length (str_splitlines ?frame) + 1 + length [str ''XY'']"
    and "count_seq ESC_J buf = 1"
    by blast
  then show ?thesis by (simp add: sl)
qed

section \<open>The frame store: claims\<close>

text \<open>
  Claim C5. In a cache whose keys are absolute (as all keys are that \<open>load_json_frames\<close>
  stores), a call of \<open>load_json_frames\<close> rejects every identifier that is not absolute,
  with \<open>ValueError\<close>, before it looks at the location; it raises \<open>FileNotFoundError\<close>
  for an absolute identifier that is not cached and whose location does not exist; it raises
  \<open>ValueError\<close> when the document decoded at an existing location is not a non-empty
  list, and when an element of the list is not a string (naming the first such
  element). Whenever a call raises, the cache holds the entries it held before and none
  for this identifier, so a later call with the identifier runs the function body again,
  whatever the files then are, and with the files unchanged raises the same exception.
\<close>

theorem load_json_frames_errors:
  assumes keys: "\<forall>k \<in> fst ` set (entries c). isabs env k"
  shows "(\<not> isabs env p \<longrightarrow>
            load_json_frames env p c =
              (Inl (ValueError (PathNotAbsolute p)), c\<lparr>misses := misses c + 1\<rparr>))
       \<and> (map_of (entries c) p = None \<and> isabs env p \<and> \<not> path_exists env p \<longrightarrow>
            load_json_frames env p c = (Inl (FileNotFoundError p), c\<lparr>misses := misses c + 1\<rparr>))
       \<and> (map_of (entries c) p = None \<and> isabs env p \<and> path_exists env p
            \<and> json_load env p = Inr doc \<and> (\<forall>frames. doc = JArray frames \<longrightarrow> frames = []) \<longrightarrow>
            load_json_frames env p c =
              (Inl (ValueError NotNonEmptyList), c\<lparr>misses := misses c + 1\<rparr>))
       \<and> (map_of (entries c) p = None \<and> isabs env p \<and> path_exists env p
            \<and> json_load env p = Inr (JArray frames) \<and> (\<exists>fr \<in> set frames. \<forall>s. fr \<noteq> JString s) \<longrightarrow>
            (\<exists>i < length frames. (\<forall>s. frames ! i \<noteq> JString s)
               \<and> (\<forall>j < i. \<exists>s. frames ! j = JString s)
               \<and> load_json_frames env p c =
                   (Inl (ValueError (FrameNotString i)), c\<lparr>misses := misses c + 1\<rparr>)))
       \<and> (\<forall>e c'. load_json_frames env p c = (Inl e, c') \<longrightarrow>
            entries c' = entries c \<and> map_of (entries c') p = None
            \<and> (\<forall>env'. fst (load_json_frames env' p c') = load_json_frames_body env' p)
            \<and> load_json_frames env p c' = (Inl e, c'\<lparr>misses := misses c' + 1\<rparr>))"
proof -
  have a: "\<not> isabs env p \<longrightarrow>
      load_json_frames env p c =
        (Inl (ValueError (PathNotAbsolute p)), c\<lparr>misses := misses c + 1\<rparr>)"
  proof
    assume na: "\<not> isabs env p"
    from not_cached [OF keys na] body_not_abs [OF na]
    show "load_json_frames env p c =
        (Inl (ValueError (PathNotAbsolute p)), c\<lparr>misses := misses c + 1\<rparr>)"
      unfolding load_json_frames_def by (rule lru_miss_fail)
  qed
  have b: "map_of (entries c) p = None \<and> isabs env p \<and> \<not> path_exists env p \<longrightarrow>
      load_json_frames env p c = (Inl (FileNotFoundError p), c\<lparr>misses := misses c + 1\<rparr>)"
    by (simp add: load_json_frames_def lru_call_def load_json_frames_body_def)
  have c: "map_of (entries c) p = None \<and> isabs env p \<and> path_exists env p
      \<and> json_load env p = Inr doc \<and> (\<forall>frames. doc = JArray frames \<longrightarrow> frames = []) \<longrightarrow>
      load_json_frames env p c = (Inl (ValueError NotNonEmptyList), c\<lparr>misses := misses c + 1\<rparr>)"
    by (auto simp add: load_json_frames_def lru_call_def load_json_frames_body_def
        split: json.splits)
  have d: "map_of (entries c) p = None \<and> isabs env p \<and> path_exists env p
      \<and> json_load env p = Inr (JArray frames) \<and> (\<exists>fr \<in> set frames. \<forall>s. fr \<noteq> JString s) \<longrightarrow>
      (\<exists>i < length frames. (\<forall>s. frames ! i \<noteq> JString s)
         \<and> (\<forall>j < i. \<exists>s. frames ! j = JString s)
         \<and> load_json_frames env p c =
             (Inl (ValueError (FrameNotString i)), c\<lparr>misses := misses c + 1\<rparr>))"
  proof
    assume h: "map_of (entries c) p = None \<and> isabs env p \<and> path_exists env p
      \<and> json_load env p = Inr (JArray frames) \<and> (\<exists>fr \<in> set frames. \<forall>s. fr \<noteq> JString s)"
    then have bad: "\<exists>fr \<in> set frames. \<forall>s. fr \<noteq> JString s" by simp
    from check_frames_bad [OF bad, of 0] obtain i where i: "i < length frames"
      "\<forall>s. frames ! i \<noteq> JString s" "\<forall>j < i. \<exists>s. frames ! j = JString s"
      "check_frames 0 frames = Inl (ValueError (FrameNotString i))" by auto
    from bad have "frames \<noteq> []" by auto
    with h i(4) have "load_json_frames_body env p = Inl (ValueError (FrameNotString i))"
      by (simp add: load_json_frames_body_def)
    with h have "load_json_frames env p c =
        (Inl (ValueError (FrameNotString i)), c\<lparr>misses := misses c + 1\<rparr>)"
      unfolding load_json_frames_def by (intro lru_miss_fail) simp_all
    with i show "\<exists>i < length frames. (\<forall>s. frames ! i \<noteq> JString s)
         \<and> (\<forall>j < i. \<exists>s. frames ! j = JString s)
         \<and> load_json_frames env p c =
             (Inl (ValueError (FrameNotString i)), c\<lparr>misses := misses c + 1\<rparr>)" by blast
  qed
  have e: "\<forall>e c'. load_json_frames env p c = (Inl e, c') \<longrightarrow>
      entries c' = entries c \<and> map_of (entries c') p = None
      \<and> (\<forall>env'. fst (load_json_frames env' p c') = load_json_frames_body env' p)
      \<and> load_json_frames env p c' = (Inl e, c'\<lparr>misses := misses c' + 1\<rparr>)"
  proof (intro allI impI)
    fix e c' assume "load_json_frames env p c = (Inl e, c')"
    then have m: "map_of (entries c) p = None" and f: "load_json_frames_body env p = Inl e"
      and c': "c' = c\<lparr>misses := misses c + 1\<rparr>"
      unfolding load_json_frames_def by (auto dest: lru_fail_is_miss)
    from m c' have m': "map_of (entries c') p = None" by simp
    have "fst (load_json_frames env' p c') = load_json_frames_body env' p" for env'
      unfolding load_json_frames_def using m'
      by (cases "load_json_frames_body env' p") (simp_all add: lru_miss_fail lru_miss_ok)
    moreover have "load_json_frames env p c' = (Inl e, c'\<lparr>misses := misses c' + 1\<rparr>)"
      unfolding load_json_frames_def using m' f by (rule lru_miss_fail)
    ultimately show "entries c' = entries c \<and> map_of (entries c') p = None
      \<and> (\<forall>env'. fst (load_json_frames env' p c') = load_json_frames_body env' p)
      \<and> load_json_frames env p c' = (Inl e, c'\<lparr>misses := misses c' + 1\<rparr>)"
      using c' m' by simp
  qed
  from a b c d e show ?thesis by (intro conjI)
qed

theorem load_json_frames_errors_witness:
  "load_json_frames
     \<lparr>isabs = (\<lambda>p. take 1 p = str ''/''), path_exists = (\<lambda>p. p = str ''/ok.json''),
      json_load = (\<lambda>p. Inr (JArray [JString (str ''a''), JInt 1]))\<rparr>
     (str ''rel.json'') empty_cache
     = (Inl (ValueError (PathNotAbsolute (str ''rel.json''))), empty_cache\<lparr>misses := 1\<rparr>)
   \<and> load_json_frames
     \<lparr>isabs = (\<lambda>p. take 1 p = str ''/''), path_exists = (\<lambda>p. p = str ''/ok.json''),
      json_load = (\<lambda>p. Inr (JArray [JString (str ''a''), JInt 1]))\<rparr>
     (str ''/no.json'') empty_cache
     = (Inl (FileNotFoundError (str ''/no.json'')), empty_cache\<lparr>misses := 1\<rparr>)
   \<and> load_json_frames
     \<lparr>isabs = (\<lambda>p. take 1 p = str ''/''), path_exists = (\<lambda>p. p = str ''/ok.json''),
      json_load = (\<lambda>p. Inr (JArray [JString (str ''a''), JInt 1]))\<rparr>
     (str ''/ok.json'') empty_cache
     = (Inl (ValueError (FrameNotString 1)), empty_cache\<lparr>misses := 1\<rparr>)"
proof -
  let ?env = "\<lparr>isabs = (\<lambda>p. take 1 p = str ''/''), path_exists = (\<lambda>p. p = str ''/ok.json''),
      json_load = (\<lambda>p. Inr (JArray [JString (str ''a''), JInt 1]))\<rparr>"
  have keys: "\<forall>k \<in> fst ` set (entries empty_cache). isabs ?env k"
    by (simp add: empty_cache_def)
  have m: "misses empty_cache + 1 = 1" "\<And>p. map_of (entries empty_cache) p = None"
    by (simp_all add: empty_cache_def)
  have r: "\<not> isabs ?env (str ''rel.json'')" by (simp add: str_def)
  have n: "isabs ?env (str ''/no.json'') \<and> \<not> path_exists ?env (str ''/no.json'')"
    by (simp add: str_def)
  have k: "isabs ?env (str ''/ok.json'') \<and> path_exists ?env (str ''/ok.json'')
      \<and> json_load ?env (str ''/ok.json'') = Inr (JArray [JString (str ''a''), JInt 1])
      \<and> (\<exists>fr \<in> set [JString (str ''a''), JInt 1]. \<forall>s. fr \<noteq> JString s)"
    by (simp add: str_def)
  note t = load_json_frames_errors [OF keys]
  have 1: "load_json_frames ?env (str ''rel.json'') empty_cache
     = (Inl (ValueError (PathNotAbsolute (str ''rel.json''))), empty_cache\<lparr>misses := 1\<rparr>)"
    using t [of "str ''rel.json''", THEN conjunct1, THEN mp, OF r] by (simp only: m)
  have n': "map_of (entries empty_cache) (str ''/no.json'') = None
      \<and> isabs ?env (str ''/no.json'') \<and> \<not> path_exists ?env (str ''/no.json'')"
    using n m(2) by (intro conjI) simp_all
  have 2: "load_json_frames ?env (str ''/no.json'') empty_cache
     = (Inl (FileNotFoundError (str ''/no.json'')), empty_cache\<lparr>misses := 1\<rparr>)"
    using t [of "str ''/no.json''", THEN conjunct2, THEN conjunct1, THEN mp, OF n']
    by (simp only: m)
  have k': "map_of (entries empty_cache) (str ''/ok.json'') = None
      \<and> isabs ?env (str ''/ok.json'') \<and> path_exists ?env (str ''/ok.json'')
      \<and> json_load ?env (str ''/ok.json'') = Inr (JArray [JString (str ''a''), JInt 1])
      \<and> (\<exists>fr \<in> set [JString (str ''a''), JInt 1]. \<forall>s. fr \<noteq> JString s)"
    using k m(2) by (intro conjI) simp_all
  from t [of "str ''/ok.json''", THEN conjunct2, THEN conjunct2, THEN conjunct2, THEN conjunct1,
      THEN mp, OF k']
  obtain i where i: "i < length [JString (str ''a''), JInt 1]"
    "\<forall>s. [JString (str ''a''), JInt 1] ! i \<noteq> JString s"
    "load_json_frames ?env (str ''/ok.json'') empty_cache =
       (Inl (ValueError (FrameNotString i)), empty_cache\<lparr>misses := misses empty_cache + 1\<rparr>)"
    by blast
  from i(1,2) have "i = 1" by (cases i) auto
  with i(3) have 3: "load_json_frames ?env (str ''/ok.json'') empty_cache =
       (Inl (ValueError (FrameNotString 1)), empty_cache\<lparr>misses := 1\<rparr>)"
    by (simp only: m)
  from 1 2 3 show ?thesis by (intro conjI)
qed

text \<open>
  Claim C9. After a load of an identifier has succeeded, its frames are cached, and a
  call for a cached identifier returns the cached frames whatever the files now are,
  without running the function body (the miss counter stays) and leaves them cached: so
  every one of any number of repeated calls returns the same frames without decoding
  again. The cache never grows beyond 32 entries with distinct keys: a new entry stored
  in a full cache replaces the last one, which is the least recently used, since every
  call puts its entry in front.
\<close>

theorem load_json_frames_memoized:
  assumes ok: "load_json_frames env p c = (Inr frames, c')"
  shows "map_of (entries c') p = Some frames
       \<and> (\<forall>env2 c2. map_of (entries c2) p = Some frames \<longrightarrow>
            load_json_frames env2 p c2 =
              (Inr frames, c2\<lparr>entries := (p, frames) # filter (\<lambda>kv. fst kv \<noteq> p) (entries c2),
                              hits := hits c2 + 1\<rparr>))
       \<and> (\<forall>env2 n. fst (load_json_frames env2 p
                          (((\<lambda>c. snd (load_json_frames env2 p c)) ^^ n) c')) = Inr frames
                   \<and> misses (((\<lambda>c. snd (load_json_frames env2 p c)) ^^ n) c') = misses c')
       \<and> maxsize = 32
       \<and> (length (entries c) \<le> maxsize \<longrightarrow> length (entries c') \<le> maxsize)
       \<and> (distinct (map fst (entries c)) \<longrightarrow> distinct (map fst (entries c')))
       \<and> (map_of (entries c) p = None \<and> length (entries c) = maxsize \<longrightarrow>
            entries c' = (p, frames) # butlast (entries c))
       \<and> (map_of (entries c) p = None \<and> length (entries c) < maxsize \<longrightarrow>
            entries c' = (p, frames) # entries c)"
proof -
  from ok have c': "c' = snd (load_json_frames env p c)" by simp
  from ok have cached: "map_of (entries c') p = Some frames"
    unfolding load_json_frames_def by (rule lru_call_ok_cached)
  have hit: "\<forall>env2 c2. map_of (entries c2) p = Some frames \<longrightarrow>
      load_json_frames env2 p c2 =
        (Inr frames, c2\<lparr>entries := (p, frames) # filter (\<lambda>kv. fst kv \<noteq> p) (entries c2),
                        hits := hits c2 + 1\<rparr>)"
    unfolding load_json_frames_def by (simp add: lru_hit)
  have rep: "\<forall>env2 n. fst (load_json_frames env2 p
                          (((\<lambda>c. snd (load_json_frames env2 p c)) ^^ n) c')) = Inr frames
                   \<and> misses (((\<lambda>c. snd (load_json_frames env2 p c)) ^^ n) c') = misses c'"
  proof (intro allI)
    fix env2 n
    let ?cn = "((\<lambda>c. snd (load_json_frames env2 p c)) ^^ n) c'"
    have "map_of (entries ?cn) p = Some frames \<and> misses ?cn = misses c'"
      unfolding load_json_frames_def using cached by (rule lru_hits_repeat)
    with hit show "fst (load_json_frames env2 p ?cn) = Inr frames \<and> misses ?cn = misses c'"
      by simp
  qed
  have len: "length (entries c) \<le> maxsize \<longrightarrow> length (entries c') \<le> maxsize"
    unfolding c' load_json_frames_def using lru_call_length by blast
  have dis: "distinct (map fst (entries c)) \<longrightarrow> distinct (map fst (entries c'))"
    unfolding c' load_json_frames_def using lru_call_distinct by blast
  have full: "map_of (entries c) p = None \<and> length (entries c) = maxsize \<longrightarrow>
      entries c' = (p, frames) # butlast (entries c)"
    using ok unfolding load_json_frames_def lru_call_def by (auto split: sum.splits)
  have room: "map_of (entries c) p = None \<and> length (entries c) < maxsize \<longrightarrow>
      entries c' = (p, frames) # entries c"
    using ok unfolding load_json_frames_def lru_call_def by (auto split: sum.splits)
  from cached hit rep len dis full room show ?thesis by (simp add: maxsize_def)
qed

theorem load_json_frames_memoized_witness:
  "fst (load_json_frames
         \<lparr>isabs = (\<lambda>p. True), path_exists = (\<lambda>p. False), json_load = (\<lambda>p. Inl (OtherException 0))\<rparr>
         (str ''/a'')
         (snd (load_json_frames
                \<lparr>isabs = (\<lambda>p. True), path_exists = (\<lambda>p. True),
                 json_load = (\<lambda>p. Inr (JArray [JString (str ''f'')]))\<rparr>
                (str ''/a'') empty_cache)))
     = Inr [str ''f'']"
proof -
  let ?env = "\<lparr>isabs = (\<lambda>p. True), path_exists = (\<lambda>p. True),
                 json_load = (\<lambda>p. Inr (JArray [JString (str ''f'')]))\<rparr>"
  let ?env2 = "\<lparr>isabs = (\<lambda>p. True), path_exists = (\<lambda>p. False),
                 json_load = (\<lambda>p. Inl (OtherException 0))\<rparr>"
  let ?c' = "snd (load_json_frames ?env (str ''/a'') empty_cache)"
  have "fst (load_json_frames ?env (str ''/a'') empty_cache) = Inr [str ''f'']"
    by (simp add: load_json_frames_def lru_call_def load_json_frames_body_def empty_cache_def)
  then have ok: "load_json_frames ?env (str ''/a'') empty_cache = (Inr [str ''f''], ?c')"
    by (simp add: prod_eq_iff)
  from load_json_frames_memoized [OF ok, THEN conjunct2, THEN conjunct2, THEN conjunct1,
      THEN spec, THEN spec, of ?env2 0]
  show ?thesis by simp
qed

section \<open>The animation stream: claims\<close>

lemma first_next:
  assumes su: "session_setup env a c = (Inr g, c')"
  shows "gen_step env console (c, Created a) Resume =
           (Some (start_seq (alt_screen a)), (c', AtYieldStart g))"
  using su session_setup_locals [OF su] by (simp add: gen_step_def encode_start_seq)




text \<open>
  Claim C2. Take a session over \<open>n \<ge> 1\<close> frames and \<open>m \<ge> 1\<close> cycles that compose: for
  \<open>k < m\<close>, \<open>banner k\<close> is the view of the banner at tick \<open>k\<close>, \<open>content k\<close> is what the
  compositor makes of the frame with index \<open>k mod n\<close> and that view, and \<open>out k\<close> is the
  encoding of cursor-home followed by \<open>content k\<close>. Then the consumer receives the setup
  sequence and after it \<open>out 0\<close>, \<open>out 1\<close>, \<dots>, \<open>out (m - 1)\<close>: the frames shown are those
  with the indices 0, 1, \<dots>, \<open>n - 1\<close>, 0, 1, \<dots> for as many cycles as are taken, and
  the content of cycle \<open>k\<close> starts with the lines of frame \<open>k mod n\<close>, each as the console
  prints it. A cancellation in the sleep after cycle \<open>m\<close> adds the teardown sequence and
  ends the generator normally. The setup and the teardown sequence each occur exactly
  once among the chunks received, first and last. The frames are the ones loaded from the
  session's source. With 3 frames and 5 cycles the frame indices are 0, 1, 2, 0, 1.
\<close>

theorem stream_frame_order:
  assumes su: "session_setup env a c = (Inr g, c')"
      and n: "length (g_frames g) = n" "1 \<le> n"
      and m: "1 \<le> m"
      and views: "\<forall>k < m. view (g_banner_template g, g_banner_width g) (int k) = Inr (banner k)"
      and rend: "\<forall>k < m. render_frame_with_banner console (g_frames g ! (k mod n)) (banner k)
                            (g_banner_color g) = Inr (content k)"
      and enc: "\<forall>k < m. encode_utf8 (HOME @ content k) = Inr (out k)"
  shows "run env console (c, Created a) (replicate (2 * m) Resume) =
           (start_seq (alt_screen a) # map out [0..<m],
            (c', AtYieldFrame g ((m - 1) mod n) (int m)))
       \<and> run env console (c, Created a)
             (replicate (2 * m) Resume @ [Resume, Throw CancelledError, Resume]) =
           (start_seq (alt_screen a) # map out [0..<m] @ [end_seq (alt_screen a)],
            (c', Finished None))
       \<and> count_list (start_seq (alt_screen a) # map out [0..<m] @ [end_seq (alt_screen a)])
             (start_seq (alt_screen a)) = 1
       \<and> count_list (start_seq (alt_screen a) # map out [0..<m] @ [end_seq (alt_screen a)])
             (end_seq (alt_screen a)) = 1
       \<and> load_json_frames env (json_path a) c = (Inr (g_frames g), c')
       \<and> (\<forall>k < m. \<exists>rest. content k =
              concat (map (\<lambda>l. projr (console l) @ ESC_K @ NEWLINE)
                        (str_splitlines (g_frames g ! (k mod n)))) @ rest)
       \<and> (n = 3 \<and> m = 5 \<longrightarrow>
            map (\<lambda>k. k mod n) [0..<m] = [0, 1, 2, 0, 1]
            \<and> map content [0..<m] =
              [projr (render_frame_with_banner console (g_frames g ! 0) (banner 0) (g_banner_color g)),
               projr (render_frame_with_banner console (g_frames g ! 1) (banner 1) (g_banner_color g)),
               projr (render_frame_with_banner console (g_frames g ! 2) (banner 2) (g_banner_color g)),
               projr (render_frame_with_banner console (g_frames g ! 0) (banner 3) (g_banner_color g)),
               projr (render_frame_with_banner console (g_frames g ! 1) (banner 4) (g_banner_color g))])"
proof -
  let ?S = "start_seq (alt_screen a)"
  let ?E = "end_seq (alt_screen a)"
  from session_setup_locals [OF su] have e: "g_end g = ?E"
    and ld: "load_json_frames env (json_path a) c = (Inr (g_frames g), c')" by simp_all
  have chunks: "\<forall>k < m. frame_chunk console g (k mod n) (int k) = Inr (out k)"
  proof (intro allI impI)
    fix k assume k: "k < m"
    have "k mod n < length (g_frames g)" using n by simp
    with views rend enc k show "frame_chunk console g (k mod n) (int k) = Inr (out k)"
      by (intro frame_chunk_eq [of g "int k" "banner k" _ console "content k"]) simp_all
  qed
  from m obtain j where j: "m = Suc j" by (cases m) simp_all
  from chunks j have ch: "\<forall>k \<le> j. frame_chunk console g (k mod n) (int k) = Inr (out k)"
    by simp
  have rep: "replicate (2 * m) Resume = Resume # replicate (2 * j + 1) Resume"
    using j by simp
  have im: "int j + 1 = int m" using j by simp
  have A: "run env console (c, Created a) (replicate (2 * m) Resume) =
      (?S # map out [0..<m], (c', AtYieldFrame g ((m - 1) mod n) (int m)))"
  proof -
    have fs: "run env console (c', AtYieldStart g) (replicate (2 * j + 1) Resume) =
        (map out [0..<Suc j], (c', AtYieldFrame g (j mod n) (int j + 1)))"
      by (rule frames_from_start [OF n ch])
    have one: "run env console (c, Created a) [Resume] = ([?S], (c', AtYieldStart g))"
      by (simp add: first_next [OF su])
    have "run env console (c, Created a) ([Resume] @ replicate (2 * j + 1) Resume) =
        (?S # map out [0..<Suc j], (c', AtYieldFrame g (j mod n) (int j + 1)))"
      unfolding run_append one fst_conv snd_conv fs by simp
    then show ?thesis unfolding rep im by (simp add: j)
  qed
  have B: "run env console (c, Created a)
        (replicate (2 * m) Resume @ [Resume, Throw CancelledError, Resume]) =
      (?S # map out [0..<m] @ [?E], (c', Finished None))"
    unfolding run_append A fst_conv snd_conv cancel_in_sleep [OF e] by simp
  have ns: "?S \<notin> set (map out [0..<m])"
  proof
    assume "?S \<in> set (map out [0..<m])"
    then obtain k where "k < m" "out k = ?S" by auto
    with chunks have "frame_chunk console g (k mod n) (int k) = Inr ?S" by simp
    from frame_chunk_not_start [OF this, of "alt_screen a"] show False by simp
  qed
  have ne: "?E \<notin> set (map out [0..<m])"
  proof
    assume "?E \<in> set (map out [0..<m])"
    then obtain k where "k < m" "out k = ?E" by auto
    with chunks have "frame_chunk console g (k mod n) (int k) = Inr ?E" by simp
    from frame_chunk_not_end [OF this, of "alt_screen a"] show False by simp
  qed
  have C: "count_list (?S # map out [0..<m] @ [?E]) ?S = 1"
    using ns start_not_end [of "alt_screen a" "alt_screen a"] by (simp add: count_list_0_iff)
  have D: "count_list (?S # map out [0..<m] @ [?E]) ?E = 1"
    using ne start_not_end [of "alt_screen a" "alt_screen a"] by (simp add: count_list_0_iff)
  have P: "\<forall>k < m. \<exists>rest. content k =
      concat (map (\<lambda>l. projr (console l) @ ESC_K @ NEWLINE)
                (str_splitlines (g_frames g ! (k mod n)))) @ rest"
    using rend render_Inr_prefix by blast
  have F: "n = 3 \<and> m = 5 \<longrightarrow>
      map (\<lambda>k. k mod n) [0..<m] = [0, 1, 2, 0, 1]
      \<and> map content [0..<m] =
        [projr (render_frame_with_banner console (g_frames g ! 0) (banner 0) (g_banner_color g)),
         projr (render_frame_with_banner console (g_frames g ! 1) (banner 1) (g_banner_color g)),
         projr (render_frame_with_banner console (g_frames g ! 2) (banner 2) (g_banner_color g)),
         projr (render_frame_with_banner console (g_frames g ! 0) (banner 3) (g_banner_color g)),
         projr (render_frame_with_banner console (g_frames g ! 1) (banner 4) (g_banner_color g))]"
  proof
    assume h: "n = 3 \<and> m = 5"
    have u: "[0..<5] = [0, 1, 2, 3, 4::nat]" by (simp add: upt_rec)
    have k: "render_frame_with_banner console (g_frames g ! (k mod 3)) (banner k) (g_banner_color g)
        = Inr (content k)" if "k < 5" for k
      using rend h that by simp
    have "render_frame_with_banner console (g_frames g ! 0) (banner 0) (g_banner_color g)
        = Inr (content 0)" using k [of 0] by simp
    moreover have "render_frame_with_banner console (g_frames g ! 1) (banner 1) (g_banner_color g)
        = Inr (content 1)" using k [of 1] by simp
    moreover have "render_frame_with_banner console (g_frames g ! 2) (banner 2) (g_banner_color g)
        = Inr (content 2)" using k [of 2] by simp
    moreover have "render_frame_with_banner console (g_frames g ! 0) (banner 3) (g_banner_color g)
        = Inr (content 3)" using k [of 3] by simp
    moreover have "render_frame_with_banner console (g_frames g ! 1) (banner 4) (g_banner_color g)
        = Inr (content 4)" using k [of 4] by simp
    ultimately show "map (\<lambda>k. k mod n) [0..<m] = [0, 1, 2, 0, 1]
      \<and> map content [0..<m] =
        [projr (render_frame_with_banner console (g_frames g ! 0) (banner 0) (g_banner_color g)),
         projr (render_frame_with_banner console (g_frames g ! 1) (banner 1) (g_banner_color g)),
         projr (render_frame_with_banner console (g_frames g ! 2) (banner 2) (g_banner_color g)),
         projr (render_frame_with_banner console (g_frames g ! 0) (banner 3) (g_banner_color g)),
         projr (render_frame_with_banner console (g_frames g ! 1) (banner 4) (g_banner_color g))]"
      using h by (simp add: u)
  qed
  from A B C D ld P F show ?thesis by (intro conjI)
qed

theorem stream_frame_order_witness:
  "run \<lparr>isabs = (\<lambda>p. True), path_exists = (\<lambda>p. True),
        json_load = (\<lambda>p. Inr (JArray [JString (str ''a''), JString (str ''b''), JString (str ''c'')]))\<rparr>
     Inr
     (empty_cache,
      Created \<lparr>json_path = str ''/a'', banner_kind = str ''ticker'', banner_text = str ''hi'',
               banner_color = str ''1,2,3'', alt_screen = False\<rparr>)
     (replicate (2 * 5) Resume @ [Resume, Throw CancelledError, Resume])
   = ([start_seq False,
       HOME @ str ''a'' @ ESC_K @ NEWLINE @ ESC_K @ NEWLINE
         @ str ''[rgb(1,2,3)]hi          [/]'' @ ESC_K @ NEWLINE @ ESC_J,
       HOME @ str ''b'' @ ESC_K @ NEWLINE @ ESC_K @ NEWLINE
         @ str ''[rgb(1,2,3)]i          h[/]'' @ ESC_K @ NEWLINE @ ESC_J,
       HOME @ str ''c'' @ ESC_K @ NEWLINE @ ESC_K @ NEWLINE
         @ str ''[rgb(1,2,3)]          hi[/]'' @ ESC_K @ NEWLINE @ ESC_J,
       HOME @ str ''a'' @ ESC_K @ NEWLINE @ ESC_K @ NEWLINE
         @ str ''[rgb(1,2,3)]         hi [/]'' @ ESC_K @ NEWLINE @ ESC_J,
       HOME @ str ''b'' @ ESC_K @ NEWLINE @ ESC_K @ NEWLINE
         @ str ''[rgb(1,2,3)]        hi  [/]'' @ ESC_K @ NEWLINE @ ESC_J,
       end_seq False],
      (empty_cache\<lparr>entries := [(str ''/a'', [str ''a'', str ''b'', str ''c''])], misses := 1\<rparr>,
       Finished None))"
proof -
  let ?env = "\<lparr>isabs = (\<lambda>p. True), path_exists = (\<lambda>p. True),
          json_load = (\<lambda>p. Inr (JArray [JString (str ''a''), JString (str ''b''), JString (str ''c'')]))\<rparr>"
  let ?a = "\<lparr>json_path = str ''/a'', banner_kind = str ''ticker'', banner_text = str ''hi'',
                 banner_color = str ''1,2,3'', alt_screen = False\<rparr>"
  let ?g = "\<lparr>g_frames = [str ''a'', str ''b'', str ''c''], g_start = start_seq False,
           g_end = end_seq False, g_banner_template = [str ''hi          ''],
           g_banner_width = 12, g_banner_color = str ''1,2,3''\<rparr>"
  let ?c' = "empty_cache\<lparr>entries := [(str ''/a'', [str ''a'', str ''b'', str ''c''])], misses := 1\<rparr>"
  let ?B = "\<lambda>k. projr (view (g_banner_template ?g, g_banner_width ?g) (int k))"
  let ?C = "\<lambda>k. projr (render_frame_with_banner Inr (g_frames ?g ! (k mod 3)) (?B k)
                        (g_banner_color ?g))"
  let ?O = "\<lambda>k. projr (encode_utf8 (HOME @ ?C k))"
  have tick: "make_ticker_lines (str ''hi'') PADDING = ([str ''hi          ''], 12)"
    by (simp add: make_ticker_lines_def PADDING_def str_split_def str_ljust_def str_def
        isspace_def replicate_num)
  have kind: "str ''ticker'' \<noteq> str ''big''" by (simp add: str_def)
  have su: "session_setup ?env ?a empty_cache = (Inr ?g, ?c')"
    by (simp add: session_setup_def load_json_frames_def lru_call_def load_json_frames_body_def
        empty_cache_def Let_def tick kind maxsize_def)
  have n: "length (g_frames ?g) = 3" "1 \<le> (3::nat)" by simp_all
  have m: "1 \<le> (5::nat)" by simp
  have views: "\<forall>k < 5. view (g_banner_template ?g, g_banner_width ?g) (int k) = Inr (?B k)"
    by (simp add: view_def shift_lines_eq)
  have rend: "\<forall>k < 5. render_frame_with_banner Inr (g_frames ?g ! (k mod 3)) (?B k)
      (g_banner_color ?g) = Inr (?C k)"
  proof (intro allI impI)
    fix k :: nat
    have "\<exists>buf. render_frame_with_banner Inr (g_frames ?g ! (k mod 3)) (?B k)
        (g_banner_color ?g) = Inr buf"
      by (rule render_console_ok) simp
    then show "render_frame_with_banner Inr (g_frames ?g ! (k mod 3)) (?B k)
        (g_banner_color ?g) = Inr (?C k)" by auto
  qed
  note ev = view_def shift_lines_eq render_frame_with_banner_def
    print_line_and_clear_def str_splitlines_def islinebreak_def banner_markup_def HOME_def
    ESC_K_def ESC_J_def NEWLINE_def str_def utf8_char_def
  have e0: "encode_utf8 (HOME @ ?C 0) = Inr (HOME @ str ''a'' @ ESC_K @ NEWLINE @ ESC_K @ NEWLINE
         @ str ''[rgb(1,2,3)]hi          [/]'' @ ESC_K @ NEWLINE @ ESC_J)"
    by (simp add: ev)
  have e1: "encode_utf8 (HOME @ ?C 1) = Inr (HOME @ str ''b'' @ ESC_K @ NEWLINE @ ESC_K @ NEWLINE
         @ str ''[rgb(1,2,3)]i          h[/]'' @ ESC_K @ NEWLINE @ ESC_J)"
    by (simp add: ev)
  have e2: "encode_utf8 (HOME @ ?C 2) = Inr (HOME @ str ''c'' @ ESC_K @ NEWLINE @ ESC_K @ NEWLINE
         @ str ''[rgb(1,2,3)]          hi[/]'' @ ESC_K @ NEWLINE @ ESC_J)"
    by (simp add: ev)
  have e3: "encode_utf8 (HOME @ ?C 3) = Inr (HOME @ str ''a'' @ ESC_K @ NEWLINE @ ESC_K @ NEWLINE
         @ str ''[rgb(1,2,3)]         hi [/]'' @ ESC_K @ NEWLINE @ ESC_J)"
    by (simp add: ev)
  have e4: "encode_utf8 (HOME @ ?C 4) = Inr (HOME @ str ''b'' @ ESC_K @ NEWLINE @ ESC_K @ NEWLINE
         @ str ''[rgb(1,2,3)]        hi  [/]'' @ ESC_K @ NEWLINE @ ESC_J)"
    by (simp add: ev)
  have enc: "\<forall>k < 5. encode_utf8 (HOME @ ?C k) = Inr (?O k)"
  proof (intro allI impI)
    fix k :: nat assume "k < 5"
    then have "k = 0 \<or> k = 1 \<or> k = 2 \<or> k = 3 \<or> k = 4" by arith
    with e0 e1 e2 e3 e4 have "\<exists>b. encode_utf8 (HOME @ ?C k) = Inr b" by (elim disjE) simp_all
    then show "encode_utf8 (HOME @ ?C k) = Inr (?O k)" by auto
  qed
  have u: "[0..<5] = [0, 1, 2, 3, 4::nat]" by (simp add: upt_rec)
  from stream_frame_order [OF su n m views rend enc, THEN conjunct2, THEN conjunct1]
  have "run ?env Inr (empty_cache, Created ?a)
        (replicate (2 * 5) Resume @ [Resume, Throw CancelledError, Resume]) =
      ([start_seq False, ?O 0, ?O 1, ?O 2, ?O 3, ?O 4, end_seq False], (?c', Finished None))"
    unfolding u by simp
  then show ?thesis by (simp only: e0 e1 e2 e3 e4 sum.sel)
qed

end
